theory Spec2Isabelle
  imports Complex_Main
begin

section \<open>Exceptions\<close>

text \<open>
  The exceptions that the scoring module can raise, each a value of the model.
  \<open>LookupError\<close> is raised by the version resolver; \<open>ValueError\<close> by the conversion of a
  signalling NaN to a float; \<open>InvalidOperation\<close> and \<open>DivisionByZero\<close> are the trapped
  signals of Python's default decimal context.
\<close>

datatype error = LookupError | ValueError | InvalidOperation | DivisionByZero

text \<open>A list comprehension whose body may raise: the first exception ends the loop.\<close>

fun map_result :: "('a \<Rightarrow> error + 'b) \<Rightarrow> 'a list \<Rightarrow> error + 'b list" where
  "map_result f [] = Inr []"
| "map_result f (x # xs) =
     (case f x of
        Inl e \<Rightarrow> Inl e
      | Inr y \<Rightarrow> (case map_result f xs of Inl e \<Rightarrow> Inl e | Inr ys \<Rightarrow> Inr (y # ys)))"


section \<open>Rounding to a fixed number of significant digits\<close>

text \<open>
  Both number types of the module round every arithmetic result to a fixed number of
  significant digits, ties to even: \<open>Decimal\<close> to the 28 decimal digits of the default
  context, \<open>float\<close> to the 53 binary digits of IEEE 754 binary64. \<open>round_sig b p x\<close> is
  that rounding in base \<open>b\<close> with \<open>p\<close> digits. The exponent range of either format
  (\<open>Emax = 999999\<close> for the decimal context, \<open>2^1024\<close> for binary64) is not part of the
  rounding: the model covers values whose results stay inside it, and zeros carry no sign.
\<close>

function ndigits :: "int \<Rightarrow> int \<Rightarrow> int" where
  "ndigits b n = (if b < 2 \<or> n < b then 1 else 1 + ndigits b (n div b))"
  by pat_completeness auto
termination
  by (relation "measure (\<lambda>(b, n). nat n)") (auto simp: not_less intro: int_div_less_self)

declare ndigits.simps [simp del]

definition ilog :: "int \<Rightarrow> rat \<Rightarrow> int" where
  \<comment> \<open>for \<open>x > 0\<close>: the \<open>k\<close> with \<open>b^k \<le> x < b^(k+1)\<close>\<close>
  "ilog b x = (let (p, q) = quotient_of x;
                   d = ndigits b p - ndigits b q
               in if of_int b powi d \<le> x then d else d - 1)"

definition round_half_even :: "rat \<Rightarrow> int" where
  "round_half_even m = (let f = \<lfloor>m\<rfloor>; d = m - of_int f in
     if d < 1 / 2 then f else if 1 / 2 < d then f + 1 else if even f then f else f + 1)"

definition round_sig :: "int \<Rightarrow> int \<Rightarrow> rat \<Rightarrow> rat" where
  "round_sig b p x = (if x = 0 then 0 else
     let e = ilog b \<bar>x\<bar> - (p - 1);
         c = round_half_even (\<bar>x\<bar> / of_int b powi e)
     in sgn x * of_int c * of_int b powi e)"


section \<open>Exact values: \<open>Decimal\<close>\<close>

text \<open>
  A finite \<open>Decimal\<close> is a coefficient and an exponent. The arithmetic of the module
  depends on the value of its operands only, so sums, products and quotients are taken on
  values (rationals) and rounded by the context; the representation matters for the result
  of \<open>quantize\<close> and \<open>normalize\<close>, which is a \<open>decimal\<close>.
\<close>

datatype decimal = Decimal (coefficient: int) (exponent: int)

definition dval :: "decimal \<Rightarrow> rat" where
  "dval d = of_int (coefficient d) * 10 powi exponent d"

definition prec :: int where
  "prec = 28"

definition Emax :: int where
  "Emax = 999999"

definition ctx_round :: "rat \<Rightarrow> rat" where
  "ctx_round = round_sig 10 prec"

definition dec_add :: "rat \<Rightarrow> rat \<Rightarrow> rat" where
  "dec_add a b = ctx_round (a + b)"

definition dec_sub :: "rat \<Rightarrow> rat \<Rightarrow> rat" where
  "dec_sub a b = ctx_round (a - b)"

definition dec_mul :: "rat \<Rightarrow> rat \<Rightarrow> rat" where
  "dec_mul a b = ctx_round (a * b)"

definition dec_div :: "rat \<Rightarrow> rat \<Rightarrow> error + rat" where
  \<comment> \<open>\<open>0 / 0\<close> signals DivisionUndefined, which raises InvalidOperation\<close>
  "dec_div a b =
     (if b = 0 then (if a = 0 then Inl InvalidOperation else Inl DivisionByZero)
      else Inr (ctx_round (a / b)))"

definition py_max :: "rat \<Rightarrow> rat \<Rightarrow> rat" where
  \<comment> \<open>Python's \<open>max(a, b)\<close>: \<open>a\<close> unless \<open>b > a\<close>\<close>
  "py_max a b = (if b > a then b else a)"

definition sum_decimals :: "rat list \<Rightarrow> rat" where
  \<comment> \<open>Python's \<open>sum\<close>: \<open>((0 + f1) + f2) + ...\<close>, every addition in the context\<close>
  "sum_decimals factors = foldl dec_add 0 factors"

definition REWARD_PRECISION :: int where
  \<comment> \<open>the exponent of \<open>Decimal("0.0000000001")\<close>\<close>
  "REWARD_PRECISION = - 10"

definition quantize :: "rat \<Rightarrow> error + decimal" where
  \<comment> \<open>\<open>x.quantize(Decimal(REWARD_PRECISION), rounding=ROUND_DOWN)\<close>: InvalidOperation when
      the coefficient of the result would have more than \<open>prec\<close> digits\<close>
  "quantize x =
     (let c = \<lfloor>\<bar>x\<bar> * 10 powi (- REWARD_PRECISION)\<rfloor> in
      if 10 ^ nat prec \<le> c then Inl InvalidOperation
      else Inr (Decimal (if x < 0 then - c else c) REWARD_PRECISION))"

function strip_zeros :: "int \<Rightarrow> int \<Rightarrow> int \<times> int" where
  "strip_zeros c e =
     (if c \<noteq> 0 \<and> c mod 10 = 0 \<and> e < Emax then strip_zeros (c div 10) (e + 1) else (c, e))"
  by pat_completeness auto
termination
  by (relation "measure (\<lambda>(c, e). nat \<bar>c\<bar>)") auto

declare strip_zeros.simps [simp del]

definition normalize_decimal :: "decimal \<Rightarrow> decimal" where
  \<comment> \<open>\<open>Decimal.normalize\<close>: a zero becomes \<open>Decimal('0')\<close>, trailing zeros are removed\<close>
  "normalize_decimal d =
     (if coefficient d = 0 then Decimal 0 0
      else (case strip_zeros (coefficient d) (exponent d) of (c, e) \<Rightarrow> Decimal c e))"


section \<open>Approximate values: \<open>float\<close>\<close>

datatype pyfloat = Fin rat | PInf | NInf | NaN

definition float_round :: "rat \<Rightarrow> rat" where
  "float_round = round_sig 2 53"

definition float_of_int :: "int \<Rightarrow> pyfloat" where
  "float_of_int k = Fin (float_round (of_int k))"

definition float_of_decimal :: "rat \<Rightarrow> pyfloat" where
  "float_of_decimal x = Fin (float_round x)"

fun isnan :: "pyfloat \<Rightarrow> bool" where
  "isnan NaN = True"
| "isnan _ = False"

fun isfinite :: "pyfloat \<Rightarrow> bool" where
  "isfinite (Fin _) = True"
| "isfinite _ = False"

fun float_neg :: "pyfloat \<Rightarrow> pyfloat" where
  "float_neg (Fin a) = Fin (- a)"
| "float_neg PInf = NInf"
| "float_neg NInf = PInf"
| "float_neg NaN = NaN"

fun float_add :: "pyfloat \<Rightarrow> pyfloat \<Rightarrow> pyfloat" where
  "float_add (Fin a) (Fin b) = Fin (float_round (a + b))"
| "float_add NaN _ = NaN"
| "float_add _ NaN = NaN"
| "float_add PInf NInf = NaN"
| "float_add NInf PInf = NaN"
| "float_add PInf _ = PInf"
| "float_add _ PInf = PInf"
| "float_add NInf _ = NInf"
| "float_add _ NInf = NInf"

definition float_sub :: "pyfloat \<Rightarrow> pyfloat \<Rightarrow> pyfloat" where
  "float_sub a b = float_add a (float_neg b)"

fun float_mul :: "pyfloat \<Rightarrow> pyfloat \<Rightarrow> pyfloat" where
  "float_mul (Fin a) (Fin b) = Fin (float_round (a * b))"
| "float_mul NaN _ = NaN"
| "float_mul _ NaN = NaN"
| "float_mul (Fin a) PInf = (if a = 0 then NaN else if 0 < a then PInf else NInf)"
| "float_mul (Fin a) NInf = (if a = 0 then NaN else if 0 < a then NInf else PInf)"
| "float_mul PInf (Fin b) = (if b = 0 then NaN else if 0 < b then PInf else NInf)"
| "float_mul NInf (Fin b) = (if b = 0 then NaN else if 0 < b then NInf else PInf)"
| "float_mul PInf PInf = PInf"
| "float_mul PInf NInf = NInf"
| "float_mul NInf PInf = NInf"
| "float_mul NInf NInf = PInf"

text \<open>
  Division of a numpy scalar: a zero divisor gives \<open>nan\<close> or an infinity (with a warning),
  not an exception.
\<close>

fun float_div :: "pyfloat \<Rightarrow> pyfloat \<Rightarrow> pyfloat" where
  "float_div (Fin a) (Fin b) =
     (if b = 0 then (if a = 0 then NaN else if 0 < a then PInf else NInf)
      else Fin (float_round (a / b)))"
| "float_div NaN _ = NaN"
| "float_div _ NaN = NaN"
| "float_div (Fin a) PInf = Fin 0"
| "float_div (Fin a) NInf = Fin 0"
| "float_div PInf (Fin b) = (if 0 \<le> b then PInf else NInf)"
| "float_div NInf (Fin b) = (if 0 \<le> b then NInf else PInf)"
| "float_div PInf PInf = NaN"
| "float_div PInf NInf = NaN"
| "float_div NInf PInf = NaN"
| "float_div NInf NInf = NaN"

function isqrt :: "int \<Rightarrow> int" where
  "isqrt n =
     (if n < 4 then (if n < 1 then 0 else 1)
      else (let r = 2 * isqrt (n div 4) in if (r + 1) * (r + 1) \<le> n then r + 1 else r))"
  by pat_completeness auto
termination
  by (relation "measure nat") (auto intro: int_div_less_self)

declare isqrt.simps [simp del]

definition sqrt_round :: "rat \<Rightarrow> rat" where
  \<comment> \<open>the square root of \<open>x > 0\<close> rounded to binary64: the integer square root \<open>s\<close> of
      \<open>x\<close> scaled by a power of 4 has 55 bits, and a root strictly between \<open>s\<close> and
      \<open>s + 1\<close> rounds as \<open>s + 1/2\<close> does\<close>
  "sqrt_round x = (if x \<le> 0 then 0 else
     let k = (109 - ilog 2 x) div 2;
         y = x * 4 powi k;
         s = isqrt \<lfloor>y\<rfloor>;
         z = (if of_int (s * s) = y then of_int s else of_int s + 1 / 2)
     in float_round (z / 2 powi k))"

fun float_sqrt :: "pyfloat \<Rightarrow> pyfloat" where
  "float_sqrt (Fin a) = (if a < 0 then NaN else Fin (sqrt_round a))"
| "float_sqrt PInf = PInf"
| "float_sqrt NInf = NaN"
| "float_sqrt NaN = NaN"

definition float_sum :: "pyfloat list \<Rightarrow> pyfloat" where
  "float_sum xs = foldl float_add (Fin 0) xs"

definition count_nonnan :: "pyfloat list \<Rightarrow> int" where
  \<comment> \<open>\<open>np.count_nonzero(~np.isnan(xs))\<close>\<close>
  "count_nonnan xs = int (length (filter (\<lambda>x. \<not> isnan x) xs))"


section \<open>Ranking: \<open>scipy.stats.mstats.rankdata\<close> on a masked array\<close>

text \<open>
  \<open>np.ma.masked_invalid\<close> masks every entry that is \<open>nan\<close> or infinite. \<open>rankdata\<close>
  sorts the unmasked values, gives them the positions \<open>1, 2, ...\<close> of the sorted order,
  replaces the positions of equal values by their mean, and gives rank \<open>0\<close> to a masked
  entry. Positions and their means are taken exactly: they are binary64 numbers for every
  list of fewer than \<open>2^26\<close> entries.
\<close>

fun tied_positions :: "rat \<Rightarrow> rat list \<Rightarrow> int \<Rightarrow> int list" where
  "tied_positions x [] k = []"
| "tied_positions x (y # ys) k =
     (if y = x then k # tied_positions x ys (k + 1) else tied_positions x ys (k + 1))"

definition unmasked :: "pyfloat list \<Rightarrow> rat list" where
  "unmasked data = concat (map (\<lambda>d. case d of Fin x \<Rightarrow> [x] | _ \<Rightarrow> []) data)"

definition rank_of :: "rat \<Rightarrow> rat list \<Rightarrow> rat" where
  "rank_of x sorted_values =
     (let ps = tied_positions x sorted_values 1
      in of_int (sum_list ps) / of_int (int (length ps)))"

definition rankdata :: "pyfloat list \<Rightarrow> pyfloat list" where
  "rankdata data =
     (let sorted_values = sort (unmasked data)
      in map (\<lambda>d. case d of Fin x \<Rightarrow> Fin (rank_of x sorted_values) | _ \<Rightarrow> Fin 0) data)"

definition zero_to_nan :: "pyfloat \<Rightarrow> pyfloat" where
  \<comment> \<open>\<open>ranks[ranks == 0] = np.nan\<close>\<close>
  "zero_to_nan r = (if r = Fin 0 then NaN else r)"


section \<open>\<open>numpy.nanmean\<close> and \<open>numpy.nanstd\<close>\<close>

definition replace_nan :: "pyfloat list \<Rightarrow> pyfloat list" where
  "replace_nan xs = map (\<lambda>x. if isnan x then Fin 0 else x) xs"

definition nanmean :: "pyfloat list \<Rightarrow> pyfloat" where
  "nanmean xs = float_div (float_sum (replace_nan xs)) (float_of_int (count_nonnan xs))"

definition nanvar :: "pyfloat list \<Rightarrow> pyfloat" where
  "nanvar xs =
     (let cnt = float_of_int (count_nonnan xs);
          avg = float_div (float_sum (replace_nan xs)) cnt;
          arr = map (\<lambda>x. if isnan x then Fin 0 else float_sub x avg) xs;
          sqr = map (\<lambda>d. float_mul d d) arr
      in float_div (float_sum sqr) cnt)"

definition nanstd :: "pyfloat list \<Rightarrow> pyfloat" where
  "nanstd xs = float_sqrt (nanvar xs)"


section \<open>The scorer \<open>Scorer1\<close>\<close>

definition STDDEV_PENALTY :: pyfloat where
  "STDDEV_PENALTY = Fin (float_round (1 / 10))"

definition SKIP_PENALTY :: pyfloat where
  "SKIP_PENALTY = Fin (float_round (1 / 10))"

definition TOTAL_WEEKLY_POOL :: rat where
  "TOTAL_WEEKLY_POOL = 200000"

definition UNIT_WEEKLY_POOL :: rat where
  "UNIT_WEEKLY_POOL = 200"

definition CHALLENGE_REWARD_PERC :: rat where
  "CHALLENGE_REWARD_PERC = 2 / 10"

definition COMPETITION_REWARD_PERC :: rat where
  "COMPETITION_REWARD_PERC = 6 / 10"

definition STAKE_REWARD_PERC :: rat where
  "STAKE_REWARD_PERC = 2 / 10"

subsection \<open>\<open>__distribute\<close>\<close>

definition reward :: "rat \<Rightarrow> rat \<Rightarrow> rat \<Rightarrow> error + decimal" where
  \<comment> \<open>\<open>((pool * factor) / total).quantize(..., rounding=ROUND_DOWN).normalize()\<close>\<close>
  "reward pool total_factor factor =
     (case dec_div (dec_mul pool factor) total_factor of
        Inl e \<Rightarrow> Inl e
      | Inr q \<Rightarrow> (case quantize q of Inl e \<Rightarrow> Inl e | Inr d \<Rightarrow> Inr (normalize_decimal d)))"

definition distribute :: "rat list \<Rightarrow> rat \<Rightarrow> error + decimal list" where
  "distribute factors pool =
     (let total_factor = sum_decimals factors in map_result (reward pool total_factor) factors)"

subsection \<open>Errors and scores\<close>

text \<open>
  \<open>compute_challenge_error\<close> hands the predictions and the true values, converted to floats,
  to scikit-learn's \<open>mean_squared_error(..., squared=False)\<close>, which is a parameter here.
\<close>

definition Scorer1_compute_challenge_error ::
  "(pyfloat list \<Rightarrow> pyfloat list \<Rightarrow> error + pyfloat) \<Rightarrow> rat list \<Rightarrow> rat list \<Rightarrow> error + pyfloat"
where
  "Scorer1_compute_challenge_error mean_squared_error predictions assets_values =
     (let float_predictions = map float_of_decimal predictions;
          float_assets_values = map float_of_decimal assets_values
      in mean_squared_error float_predictions float_assets_values)"

definition Scorer1_compute_challenge_scores :: "pyfloat list \<Rightarrow> pyfloat list" where
  "Scorer1_compute_challenge_scores participants_errors =
     (let n = count_nonnan participants_errors in
      if n = 0 then []
      else (let ranks = map zero_to_nan (rankdata participants_errors)
            in map (\<lambda>r. float_div (float_sub (float_of_int n) r) (float_of_int (n - 1))) ranks))"

definition py_max0 :: "pyfloat \<Rightarrow> pyfloat" where
  \<comment> \<open>Python's \<open>max(x, 0)\<close>: \<open>x\<close> unless \<open>0 > x\<close>\<close>
  "py_max0 x = (case x of Fin v \<Rightarrow> (if v < 0 then Fin 0 else Fin v) | NInf \<Rightarrow> Fin 0 | _ \<Rightarrow> x)"

definition Scorer1_compute_competition_score :: "pyfloat list \<Rightarrow> pyfloat" where
  "Scorer1_compute_competition_score challenge_scores =
     (let scores = drop (length challenge_scores - 4) challenge_scores;
          num_skips = foldl (\<lambda>k score. if isnan score then k + 1 else k)
                            (4 - int (length scores)) scores
      in if num_skips = 4 then NaN
         else (let a = nanmean scores;
                   b = float_mul (float_mul STDDEV_PENALTY (float_of_int 2)) (nanstd scores);
                   c = float_div (float_mul SKIP_PENALTY (float_of_int num_skips)) (float_of_int 3)
               in py_max0 (float_sub a (float_add b c))))"

subsection \<open>Rewards\<close>

text \<open>
  \<open>dec(score)\<close> converts a float exactly. A \<open>nan\<close> makes the comparison inside \<open>max\<close> raise
  InvalidOperation. A positive infinity gives the factor \<open>Decimal('Infinity')\<close>, on which
  \<open>__distribute\<close> raises InvalidOperation (\<open>Infinity / Infinity\<close>, or \<open>0 * Infinity\<close>): the
  model raises it where the factor is made.
\<close>

fun challenge_factor :: "pyfloat \<Rightarrow> error + rat" where
  "challenge_factor (Fin x) = Inr (py_max (dec_sub x (25 / 100)) 0)"
| "challenge_factor NaN = Inr (py_max (dec_sub 0 (25 / 100)) 0)"
| "challenge_factor NInf = Inr 0"
| "challenge_factor PInf = Inl InvalidOperation"

definition Scorer1_compute_challenge_rewards :: "pyfloat list \<Rightarrow> rat \<Rightarrow> error + decimal list" where
  "Scorer1_compute_challenge_rewards challenge_scores challenge_pool =
     (case map_result challenge_factor challenge_scores of
        Inl e \<Rightarrow> Inl e
      | Inr factors \<Rightarrow> distribute factors challenge_pool)"

definition normalized_ranks :: "pyfloat list \<Rightarrow> pyfloat list" where
  "normalized_ranks competition_scores =
     (let n = count_nonnan competition_scores;
          ranks = map zero_to_nan (rankdata competition_scores)
      in map (\<lambda>r. if \<not> isnan r
                   then float_div (float_sub r (float_of_int 1)) (float_of_int (n - 1))
                   else Fin 0) ranks)"

fun competition_factor :: "pyfloat \<Rightarrow> error + rat" where
  "competition_factor (Fin x) = Inr (py_max (dec_sub x (5 / 10)) 0)"
| "competition_factor NaN = Inl InvalidOperation"
| "competition_factor NInf = Inr 0"
| "competition_factor PInf = Inl InvalidOperation"

definition competition_factors :: "pyfloat list \<Rightarrow> error + rat list" where
  "competition_factors competition_scores =
     map_result competition_factor (normalized_ranks competition_scores)"

definition Scorer1_compute_competition_rewards :: "pyfloat list \<Rightarrow> rat \<Rightarrow> error + decimal list" where
  "Scorer1_compute_competition_rewards competition_scores competition_pool =
     (let n = count_nonnan competition_scores in
      if n = 0 then Inr (replicate (length competition_scores) (Decimal 0 0))
      else (case competition_factors competition_scores of
              Inl e \<Rightarrow> Inl e
            | Inr factors \<Rightarrow> distribute factors competition_pool))"

definition Scorer1_compute_stake_rewards :: "rat list \<Rightarrow> rat \<Rightarrow> error + decimal list" where
  "Scorer1_compute_stake_rewards stakes stake_pool = distribute stakes stake_pool"

subsection \<open>Pools\<close>

definition Scorer1_compute_challenge_pool :: "int \<Rightarrow> rat" where
  "Scorer1_compute_challenge_pool num_predictors =
     dec_mul (dec_mul UNIT_WEEKLY_POOL CHALLENGE_REWARD_PERC) (of_int num_predictors)"

definition Scorer1_compute_competition_pool :: "int \<Rightarrow> rat" where
  "Scorer1_compute_competition_pool num_predictors =
     dec_mul (dec_mul UNIT_WEEKLY_POOL COMPETITION_REWARD_PERC) (of_int num_predictors)"

definition Scorer1_compute_stake_pool :: "int \<Rightarrow> rat" where
  "Scorer1_compute_stake_pool num_stakers =
     dec_mul (dec_mul UNIT_WEEKLY_POOL STAKE_REWARD_PERC) (of_int num_stakers)"

definition Scorer1_compute_pool_surplus :: "int \<Rightarrow> int \<Rightarrow> rat" where
  "Scorer1_compute_pool_surplus num_predictors num_stakers =
     dec_sub TOTAL_WEEKLY_POOL
       (dec_add (dec_add (Scorer1_compute_challenge_pool num_predictors)
                         (Scorer1_compute_competition_pool num_predictors))
                (Scorer1_compute_stake_pool num_stakers))"


section \<open>The version resolver and the module's functions\<close>

datatype scorer = Scorer1

definition Scorer_get :: "int \<Rightarrow> error + scorer" where
  "Scorer_get challenge_number =
     (if challenge_number < 0 then Inl LookupError else Inr Scorer1)"

definition compute_challenge_error ::
  "(pyfloat list \<Rightarrow> pyfloat list \<Rightarrow> error + pyfloat) \<Rightarrow> int \<Rightarrow> rat list \<Rightarrow> rat list
   \<Rightarrow> error + pyfloat"
where
  "compute_challenge_error mean_squared_error challenge_number predictions assets_values =
     (case Scorer_get challenge_number of
        Inl e \<Rightarrow> Inl e
      | Inr Scorer1 \<Rightarrow>
          Scorer1_compute_challenge_error mean_squared_error predictions assets_values)"

definition compute_challenge_scores :: "int \<Rightarrow> pyfloat list \<Rightarrow> error + pyfloat list" where
  "compute_challenge_scores challenge_number participants_errors =
     (case Scorer_get challenge_number of
        Inl e \<Rightarrow> Inl e
      | Inr Scorer1 \<Rightarrow> Inr (Scorer1_compute_challenge_scores participants_errors))"

definition compute_competition_score :: "int \<Rightarrow> pyfloat list \<Rightarrow> error + pyfloat" where
  "compute_competition_score challenge_number challenge_scores =
     (case Scorer_get challenge_number of
        Inl e \<Rightarrow> Inl e
      | Inr Scorer1 \<Rightarrow> Inr (Scorer1_compute_competition_score challenge_scores))"

definition compute_challenge_rewards :: "int \<Rightarrow> pyfloat list \<Rightarrow> rat \<Rightarrow> error + decimal list" where
  "compute_challenge_rewards challenge_number challenge_scores challenge_pool =
     (case Scorer_get challenge_number of
        Inl e \<Rightarrow> Inl e
      | Inr Scorer1 \<Rightarrow> Scorer1_compute_challenge_rewards challenge_scores challenge_pool)"

definition compute_competition_rewards :: "int \<Rightarrow> pyfloat list \<Rightarrow> rat \<Rightarrow> error + decimal list" where
  "compute_competition_rewards challenge_number competition_scores competition_pool =
     (case Scorer_get challenge_number of
        Inl e \<Rightarrow> Inl e
      | Inr Scorer1 \<Rightarrow> Scorer1_compute_competition_rewards competition_scores competition_pool)"

definition compute_stake_rewards :: "int \<Rightarrow> rat list \<Rightarrow> rat \<Rightarrow> error + decimal list" where
  "compute_stake_rewards challenge_number stakes stake_pool =
     (case Scorer_get challenge_number of
        Inl e \<Rightarrow> Inl e
      | Inr Scorer1 \<Rightarrow> Scorer1_compute_stake_rewards stakes stake_pool)"

definition compute_challenge_pool :: "int \<Rightarrow> int \<Rightarrow> error + rat" where
  "compute_challenge_pool challenge_number num_predictors =
     (case Scorer_get challenge_number of
        Inl e \<Rightarrow> Inl e
      | Inr Scorer1 \<Rightarrow> Inr (Scorer1_compute_challenge_pool num_predictors))"

definition compute_competition_pool :: "int \<Rightarrow> int \<Rightarrow> error + rat" where
  "compute_competition_pool challenge_number num_predictors =
     (case Scorer_get challenge_number of
        Inl e \<Rightarrow> Inl e
      | Inr Scorer1 \<Rightarrow> Inr (Scorer1_compute_competition_pool num_predictors))"

definition compute_stake_pool :: "int \<Rightarrow> int \<Rightarrow> error + rat" where
  "compute_stake_pool challenge_number num_stakers =
     (case Scorer_get challenge_number of
        Inl e \<Rightarrow> Inl e
      | Inr Scorer1 \<Rightarrow> Inr (Scorer1_compute_stake_pool num_stakers))"

definition compute_pool_surplus :: "int \<Rightarrow> int \<Rightarrow> int \<Rightarrow> error + rat" where
  "compute_pool_surplus challenge_number num_predictors num_stakers =
     (case Scorer_get challenge_number of
        Inl e \<Rightarrow> Inl e
      | Inr Scorer1 \<Rightarrow> Inr (Scorer1_compute_pool_surplus num_predictors num_stakers))"


section \<open>\<open>validate_prediction\<close>\<close>

text \<open>
  A submitted value is any \<open>Decimal\<close>: a number, an infinity, a quiet or a signalling NaN.
  \<open>math.isnan\<close> converts its argument to a float first, and the conversion of a signalling
  NaN raises ValueError. \<open>any\<close> stops at the first NaN it finds.
\<close>

datatype decimal_value = Number rat | Infinity bool | QNaN | SNaN

fun math_isnan :: "decimal_value \<Rightarrow> error + bool" where
  "math_isnan (Number x) = Inr False"
| "math_isnan (Infinity s) = Inr False"
| "math_isnan QNaN = Inr True"
| "math_isnan SNaN = Inl ValueError"

fun any_isnan :: "decimal_value list \<Rightarrow> error + bool" where
  "any_isnan [] = Inr False"
| "any_isnan (v # vs) =
     (case math_isnan v of
        Inl e \<Rightarrow> Inl e
      | Inr True \<Rightarrow> Inr True
      | Inr False \<Rightarrow> any_isnan vs)"

definition validate_prediction :: "string list \<Rightarrow> (string \<times> decimal_value) list \<Rightarrow> error + bool" where
  "validate_prediction assets predictions =
     (let predicted_assets = set (map fst predictions) in
      if set assets \<noteq> predicted_assets then Inr False
      else if length assets \<noteq> length predictions then Inr False
      else (case any_isnan (map snd predictions) of
              Inl e \<Rightarrow> Inl e
            | Inr b \<Rightarrow> Inr (\<not> b)))"


section \<open>The specification's formulas\<close>

text \<open>
  The definitions of this section follow the words of the specification; the theorems
  below compare them with the definitions taken from the source.

  The rank of a value among the ranked values, ties averaged: with \<open>L\<close> values below it
  and \<open>E\<close> values equal to it (itself included), the reserved positions are
  \<open>L + 1, ..., L + E\<close> and their mean is \<open>L + (E + 1) / 2\<close>.
\<close>

definition average_rank :: "rat \<Rightarrow> rat list \<Rightarrow> rat" where
  "average_rank x values =
     of_nat (length (filter (\<lambda>y. y < x) values))
       + (of_nat (length (filter (\<lambda>y. y = x) values)) + 1) / 2"

text \<open>
  The score of one participant: \<open>(n - r) / (n - 1)\<close> for the rank \<open>r\<close> of a ranked error,
  in float arithmetic, and \<open>nan\<close> for an entry that is not ranked.
\<close>

definition challenge_score :: "int \<Rightarrow> rat list \<Rightarrow> pyfloat \<Rightarrow> pyfloat" where
  "challenge_score n ranked e =
     (case e of
        Fin x \<Rightarrow> float_div (float_sub (float_of_int n) (Fin (average_rank x ranked)))
                            (float_of_int (n - 1))
      | _ \<Rightarrow> NaN)"

text \<open>
  The mean and the population standard deviation of a list of scores, and the competition
  score over the trailing window of four entries.
\<close>

definition spec_mean :: "pyfloat list \<Rightarrow> pyfloat" where
  "spec_mean xs = float_div (float_sum xs) (float_of_int (int (length xs)))"

definition spec_population_stddev :: "pyfloat list \<Rightarrow> pyfloat" where
  "spec_population_stddev xs =
     (let m = spec_mean xs;
          squares = map (\<lambda>x. float_mul (float_sub x m) (float_sub x m)) xs
      in float_sqrt (float_div (float_sum squares) (float_of_int (int (length xs)))))"

definition spec_competition_score :: "pyfloat list \<Rightarrow> pyfloat" where
  "spec_competition_score history =
     (let window = drop (length history - 4) history;
          present = filter (\<lambda>s. \<not> isnan s) window;
          num_skips = (4 - int (length window)) + int (length (filter isnan window))
      in if num_skips = 4 then NaN
         else (let mean = spec_mean present;
                   stddev_penalty =
                     float_mul (float_mul STDDEV_PENALTY (float_of_int 2))
                               (spec_population_stddev present);
                   skip_penalty =
                     float_div (float_mul SKIP_PENALTY (float_of_int num_skips)) (float_of_int 3)
               in py_max0 (float_sub mean (float_add stddev_penalty skip_penalty))))"


text \<open>
  The factor of a participant in the competition rewards: the normalized rank
  \<open>(rank - 1) / (n - 1)\<close> is a float quotient, \<open>0.5\<close> is subtracted from its exact decimal
  value in the decimal context, and the result is floored at 0; a score that is not ranked
  has the factor 0.
\<close>

definition spec_normalized_rank :: "int \<Rightarrow> rat list \<Rightarrow> rat \<Rightarrow> rat" where
  "spec_normalized_rank n ranked x =
     float_round (float_round (average_rank x ranked - 1) / float_round (of_int (n - 1)))"

definition spec_competition_factor :: "int \<Rightarrow> rat list \<Rightarrow> pyfloat \<Rightarrow> rat" where
  "spec_competition_factor n ranked score =
     (case score of
        Fin x \<Rightarrow> max (ctx_round (spec_normalized_rank n ranked x - 5 / 10)) 0
      | _ \<Rightarrow> 0)"





text \<open>
  The unit roundoff of the decimal context: rounding half-even to \<open>prec\<close> significant
  digits changes a value by at most this fraction of it.
\<close>

definition unit_roundoff :: rat where
  "unit_roundoff = 10 powi (1 - prec) / 2"


section \<open>The version resolver\<close>

text \<open>
  Claim C9. \<open>Scorer.get\<close> raises LookupError for every negative challenge number and
  returns the one implemented scorer for every other number; with a negative challenge
  number every function of the module raises that LookupError and returns nothing.
\<close>

theorem version_resolver:
  "Scorer_get challenge_number = (if challenge_number < 0 then Inl LookupError else Inr Scorer1)
   \<and> (challenge_number < 0 \<longrightarrow>
          compute_challenge_error mse challenge_number predictions assets_values = Inl LookupError
        \<and> compute_challenge_scores challenge_number participants_errors = Inl LookupError
        \<and> compute_competition_score challenge_number challenge_scores = Inl LookupError
        \<and> compute_challenge_rewards challenge_number challenge_scores pool = Inl LookupError
        \<and> compute_competition_rewards challenge_number competition_scores pool = Inl LookupError
        \<and> compute_stake_rewards challenge_number stakes pool = Inl LookupError
        \<and> compute_challenge_pool challenge_number num_predictors = Inl LookupError
        \<and> compute_competition_pool challenge_number num_predictors = Inl LookupError
        \<and> compute_stake_pool challenge_number num_stakers = Inl LookupError
        \<and> compute_pool_surplus challenge_number num_predictors num_stakers = Inl LookupError)"
  by (simp add: Scorer_get_def compute_challenge_error_def compute_challenge_scores_def
      compute_competition_score_def compute_challenge_rewards_def compute_competition_rewards_def
      compute_stake_rewards_def compute_challenge_pool_def compute_competition_pool_def
      compute_stake_pool_def compute_pool_surplus_def)

text \<open>Claim C9 at challenge numbers \<open>-1\<close> and \<open>0\<close>.\<close>

theorem version_resolver_witness:
  "Scorer_get (- 1) = Inl LookupError
   \<and> compute_challenge_scores (- 1) [Fin 1, Fin 2] = Inl LookupError
   \<and> compute_stake_rewards (- 1) [100, 200, 700] 1000 = Inl LookupError
   \<and> compute_pool_surplus (- 1) 10 10 = Inl LookupError
   \<and> Scorer_get 0 = Inr Scorer1"
  using version_resolver [of "- 1" "\<lambda>a b. Inr (Fin 0)" "[]" "[]" "[Fin 1, Fin 2]" "[]" 1000 "[]"
                              "[100, 200, 700]" 10 10]
        version_resolver [of 0 "\<lambda>a b. Inr (Fin 0)" "[]" "[]" "[]" "[]" 0 "[]" "[]" 0 0]
  by simp


section \<open>The prediction validator\<close>

lemma any_isnan_False:
  "any_isnan vs = Inr False \<longleftrightarrow> (\<forall>v\<in>set vs. v \<noteq> QNaN \<and> v \<noteq> SNaN)"
proof (induction vs)
  case Nil
  show ?case by simp
next
  case (Cons v vs)
  then show ?case by (cases v) auto
qed

lemma distinct_iff_count_list:
  "distinct xs \<longleftrightarrow> (\<forall>a\<in>set xs. count_list xs a = 1)"
proof (induction xs)
  case Nil
  show ?case by simp
next
  case (Cons x xs)
  show ?case
  proof (cases "x \<in> set xs")
    case True
    then have "0 < count_list xs x" by (metis count_list_0_iff gr0I)
    with True show ?thesis by auto
  next
    case False
    then have "count_list xs x = 0" by (simp add: count_list_0_iff)
    with False Cons show ?thesis by auto
  qed
qed

lemma length_eq_iff_distinct:
  assumes "distinct xs" "set xs = set ys"
  shows "length xs = length ys \<longleftrightarrow> distinct ys"
proof
  assume "length xs = length ys"
  with assms have "card (set ys) = length ys" by (metis distinct_card)
  then show "distinct ys" by (rule card_distinct)
next
  assume "distinct ys"
  with assms show "length xs = length ys" by (metis distinct_card)
qed

text \<open>
  Claim C8, as the code has it. The count check compares the length of the submission with
  the length of the asset list, so it finds a duplicate only when the asset list itself has
  none. For a list of required assets without duplicates, \<open>validate_prediction\<close> returns
  true if and only if the submitted keys are exactly the required assets, every required
  asset has exactly one entry, and no submitted value is a NaN.
\<close>

theorem validate_prediction_iff:
  assumes "distinct assets"
  shows "validate_prediction assets predictions = Inr True \<longleftrightarrow>
           set (map fst predictions) = set assets
         \<and> (\<forall>a\<in>set assets. count_list (map fst predictions) a = 1)
         \<and> (\<forall>v\<in>set (map snd predictions). v \<noteq> QNaN \<and> v \<noteq> SNaN)"
proof (cases "set assets = set (map fst predictions)")
  case False
  then show ?thesis by (auto simp: validate_prediction_def)
next
  case True
  have len: "length assets = length predictions \<longleftrightarrow> distinct (map fst predictions)"
    using length_eq_iff_distinct [OF assms True] by simp
  have cnt: "distinct (map fst predictions) \<longleftrightarrow>
               (\<forall>a\<in>set assets. count_list (map fst predictions) a = 1)"
    using distinct_iff_count_list [of "map fst predictions"] True by simp
  have nan: "(case any_isnan (map snd predictions) of Inl e \<Rightarrow> Inl e | Inr b \<Rightarrow> Inr (\<not> b)) = Inr True
             \<longleftrightarrow> (\<forall>v\<in>set (map snd predictions). v \<noteq> QNaN \<and> v \<noteq> SNaN)"
    using any_isnan_False [of "map snd predictions"] by (auto split: sum.splits)
  show ?thesis
    using True len cnt nan by (auto simp: validate_prediction_def Let_def)
qed

text \<open>Claim C8 on the scenario of the specification: assets A and B, one entry each.\<close>

theorem validate_prediction_iff_witness:
  "validate_prediction [''A'', ''B''] [(''A'', Number 1), (''B'', Number 2)] = Inr True"
proof -
  have d: "distinct [''A'', ''B'']" by simp
  show ?thesis
    unfolding validate_prediction_iff [OF d] by simp
qed

text \<open>
  Claim C8 as stated fails when the asset list names an asset twice: the submission below
  has two entries for the asset A and is accepted.
\<close>

theorem validate_prediction_dup_counterexample:
  "validate_prediction [''A'', ''A''] [(''A'', Number 1), (''A'', Number 2)] = Inr True
   \<and> \<not> (\<forall>a\<in>set [''A'', ''A''].
            count_list (map fst [(''A'', Number 1), (''A'', Number 2)]) a = 1)"
  by (simp add: validate_prediction_def)


section \<open>Competition rewards when every score is missing\<close>

lemma count_nonnan_all_nan:
  "(\<forall>s\<in>set scores. s = NaN) \<Longrightarrow> count_nonnan scores = 0"
  by (induction scores) (auto simp: count_nonnan_def)

text \<open>
  Claim C10. When every competition score is \<open>nan\<close>, \<open>compute_competition_rewards\<close> returns
  one zero reward per score, whatever the pool is: nothing is distributed, no factor sum is
  divided by, and the rewards add up to zero.
\<close>

theorem competition_rewards_all_missing:
  assumes "\<forall>s\<in>set competition_scores. s = NaN"
  shows "Scorer1_compute_competition_rewards competition_scores competition_pool
           = Inr (replicate (length competition_scores) (Decimal 0 0))
       \<and> (0 \<le> challenge_number \<longrightarrow>
            compute_competition_rewards challenge_number competition_scores competition_pool
              = Inr (replicate (length competition_scores) (Decimal 0 0)))
       \<and> sum_list (map dval (replicate (length competition_scores) (Decimal 0 0))) = 0"
proof -
  have "count_nonnan competition_scores = 0"
    using assms by (rule count_nonnan_all_nan)
  then have r: "Scorer1_compute_competition_rewards competition_scores competition_pool
           = Inr (replicate (length competition_scores) (Decimal 0 0))"
    by (simp add: Scorer1_compute_competition_rewards_def)
  have z: "sum_list (map dval (replicate n (Decimal 0 0))) = 0" for n
    by (induction n) (simp_all add: dval_def)
  show ?thesis
    using r z by (simp add: compute_competition_rewards_def Scorer_get_def)
qed

text \<open>Claim C10 on three missing scores and a pool of 12000.\<close>

theorem competition_rewards_all_missing_witness:
  "Scorer1_compute_competition_rewards [NaN, NaN, NaN] 12000
     = Inr [Decimal 0 0, Decimal 0 0, Decimal 0 0]
   \<and> compute_competition_rewards 7 [NaN, NaN, NaN] 12000
     = Inr [Decimal 0 0, Decimal 0 0, Decimal 0 0]"
proof -
  have h: "\<forall>s\<in>set [NaN, NaN, NaN]. s = NaN" by simp
  show ?thesis
    using competition_rewards_all_missing [OF h, of 12000 7] by (simp add: numeral_3_eq_3)
qed


section \<open>Digit counts and the integer logarithm\<close>

lemma int_div_bounds:
  fixes b n :: int
  assumes "0 < b"
  shows "b * (n div b) \<le> n" "n < b * (n div b + 1)"
proof -
  have e: "n = b * (n div b) + n mod b" by simp
  have m: "0 \<le> n mod b" "n mod b < b" using assms by simp_all
  show "b * (n div b) \<le> n" using e m by linarith
  have "b * (n div b + 1) = b * (n div b) + b" by (simp add: distrib_left)
  then show "n < b * (n div b + 1)" using e m by linarith
qed

lemma ndigits_ex:
  assumes "2 \<le> b" "1 \<le> n"
  shows "\<exists>k::nat. ndigits b n = int k + 1 \<and> b ^ k \<le> n \<and> n < b ^ (k + 1)"
  using assms
proof (induction b n rule: ndigits.induct)
  case (1 b n)
  show ?case
  proof (cases "n < b")
    case True
    then have "ndigits b n = int 0 + 1 \<and> b ^ 0 \<le> n \<and> n < b ^ (0 + 1)"
      using 1(3) by (subst ndigits.simps) simp
    then show ?thesis by blast
  next
    case False
    with 1(2) have nb: "\<not> (b < 2 \<or> n < b)" by simp
    have "1 \<le> n div b"
      using False 1(2) int_one_le_iff_zero_less pos_imp_zdiv_pos_iff by auto
    from 1(1) [OF nb 1(2) this] obtain k :: nat where
      k: "ndigits b (n div b) = int k + 1" "b ^ k \<le> n div b" "n div b < b ^ (k + 1)"
      by blast
    have bpos: "0 < b" using 1(2) by simp
    have "b * b ^ k \<le> b * (n div b)"
      using k(2) bpos by simp
    with int_div_bounds(1) [OF bpos, of n] have lo: "b ^ (Suc k) \<le> n" by simp
    have "n div b + 1 \<le> b ^ (k + 1)" using k(3) by simp
    then have "b * (n div b + 1) \<le> b * b ^ (k + 1)"
      using bpos by (simp only: mult_le_cancel_left_pos)
    with int_div_bounds(2) [OF bpos, of n] have hi: "n < b ^ (Suc k + 1)" by simp
    have "ndigits b n = int (Suc k) + 1"
      using nb k(1) by (subst ndigits.simps) simp
    with lo hi show ?thesis by blast
  qed
qed

lemma powi_nat_div:
  fixes B :: rat
  assumes "B \<noteq> 0"
  shows "B ^ m / B ^ n = B powi (int m - int n)"
  using assms by (simp add: power_int_diff)

lemma ilog_bounds:
  assumes b: "2 \<le> b" and x: "0 < x"
  shows "of_int b powi ilog b x \<le> x \<and> x < of_int b powi (ilog b x + 1)"
proof -
  define B :: rat where "B = of_int b"
  have B1: "1 < B" using b by (simp add: B_def)
  have B0: "B \<noteq> 0" "0 < B" using B1 by simp_all
  obtain p q where pq: "quotient_of x = (p, q)" by (cases "quotient_of x")
  have q: "0 < q" using pq by (rule quotient_of_denom_pos)
  have xe: "x = of_int p / of_int q" using pq by (rule quotient_of_div)
  have p: "0 < p" using x q xe by (simp add: zero_less_divide_iff)
  obtain kp :: nat where kp: "ndigits b p = int kp + 1" "b ^ kp \<le> p" "p < b ^ (kp + 1)"
    using ndigits_ex [OF b, of p] p by auto
  obtain kq :: nat where kq: "ndigits b q = int kq + 1" "b ^ kq \<le> q" "q < b ^ (kq + 1)"
    using ndigits_ex [OF b, of q] q by auto
  define d where "d = int kp - int kq"
  have dd: "ndigits b p - ndigits b q = d" using kp(1) kq(1) by (simp add: d_def)
  have il: "ilog b x = (if B powi d \<le> x then d else d - 1)"
    by (simp add: ilog_def pq dd B_def)
  have qr: "0 < (of_int q :: rat)" and pr: "0 < (of_int p :: rat)" using q p by simp_all
  have P: "B ^ kp \<le> of_int p" "of_int p < B ^ (kp + 1)"
    using kp(2,3) unfolding B_def by (metis of_int_le_iff of_int_power, metis of_int_less_iff of_int_power)
  have Q: "B ^ kq \<le> of_int q" "of_int q < B ^ (kq + 1)"
    using kq(2,3) unfolding B_def by (metis of_int_le_iff of_int_power, metis of_int_less_iff of_int_power)
  have "x < B ^ (kp + 1) / of_int q"
    unfolding xe using P(2) qr by (simp add: divide_strict_right_mono)
  also have "\<dots> \<le> B ^ (kp + 1) / B ^ kq"
    using Q(1) B0 qr by (intro divide_left_mono) simp_all
  also have "\<dots> = B powi (d + 1)"
    using powi_nat_div [OF B0(1), of "kp + 1" kq] by (simp add: d_def algebra_simps)
  finally have hi: "x < B powi (d + 1)" .
  have "B powi (d - 1) = B ^ kp / B ^ (kq + 1)"
    using powi_nat_div [OF B0(1), of kp "kq + 1"] by (simp add: d_def algebra_simps)
  also have "\<dots> \<le> of_int p / B ^ (kq + 1)"
    using P(1) B0 by (simp add: divide_right_mono)
  also have "\<dots> \<le> of_int p / of_int q"
    using Q(2) pr qr B0 by (intro divide_left_mono) simp_all
  finally have lo: "B powi (d - 1) \<le> x" by (simp add: xe)
  show ?thesis
    using il hi lo unfolding B_def [symmetric] by (auto simp: not_le)
qed

lemma ilog_unique:
  assumes b: "2 \<le> b" and x: "of_int b powi k \<le> x" "x < of_int b powi (k + 1)"
  shows "ilog b x = k"
proof -
  define B :: rat where "B = of_int b"
  have B1: "1 < B" using b by (simp add: B_def)
  have "0 < B powi k" using B1 by simp
  then have xp: "0 < x" using x(1) unfolding B_def by linarith
  note L = ilog_bounds [OF b xp, folded B_def]
  have "B powi k < B powi (ilog b x + 1)" using x(1) L unfolding B_def by linarith
  then have 1: "k < ilog b x + 1"
    using B1 by (metis not_le power_int_increasing less_imp_le not_less)
  have "B powi ilog b x < B powi (k + 1)" using x(2) L unfolding B_def by linarith
  then have 2: "ilog b x < k + 1"
    using B1 by (metis not_le power_int_increasing less_imp_le not_less)
  from 1 2 show ?thesis by simp
qed

lemma ilog_mono:
  assumes b: "2 \<le> b" and "0 < x" "x \<le> y"
  shows "ilog b x \<le> ilog b y"
proof -
  define B :: rat where "B = of_int b"
  have B1: "1 < B" using b by (simp add: B_def)
  have y: "0 < y" using assms by simp
  have "B powi ilog b x \<le> x" using ilog_bounds [OF b assms(2)] by (simp add: B_def)
  also have "x \<le> y" by fact
  also have "y < B powi (ilog b y + 1)" using ilog_bounds [OF b y] by (simp add: B_def)
  finally have "ilog b x < ilog b y + 1"
    using B1 by (metis not_le power_int_increasing less_imp_le not_less)
  then show ?thesis by simp
qed


section \<open>Rounding half to even\<close>

lemma rhe_of_int: "round_half_even (of_int k) = k"
  by (simp add: round_half_even_def)

lemma rhe_cases:
  "round_half_even m = \<lfloor>m\<rfloor> \<and> m - of_int \<lfloor>m\<rfloor> \<le> 1 / 2
   \<or> round_half_even m = \<lfloor>m\<rfloor> + 1 \<and> 1 / 2 \<le> m - of_int \<lfloor>m\<rfloor>"
  by (auto simp: round_half_even_def Let_def)


lemma rhe_le_int:
  assumes "m \<le> of_int K"
  shows "round_half_even m \<le> K"
proof (cases "m = of_int K")
  case True
  then show ?thesis by (simp add: rhe_of_int)
next
  case False
  with assms have "m < of_int K" by simp
  then have "\<lfloor>m\<rfloor> < K" by (simp add: floor_less_iff)
  then show ?thesis using rhe_cases [of m] by auto
qed

lemma rhe_ge_int:
  assumes "of_int K \<le> m"
  shows "K \<le> round_half_even m"
proof -
  have "K \<le> \<lfloor>m\<rfloor>" using assms by (simp add: le_floor_iff)
  then show ?thesis using rhe_cases [of m] by auto
qed

lemma rhe_mono:
  assumes "x \<le> y"
  shows "round_half_even x \<le> round_half_even y"
proof (cases "\<lfloor>x\<rfloor> < \<lfloor>y\<rfloor>")
  case True
  have "round_half_even x \<le> \<lfloor>x\<rfloor> + 1" using rhe_cases [of x] by auto
  also have "\<dots> \<le> \<lfloor>y\<rfloor>" using True by simp
  also have "\<dots> \<le> round_half_even y" using rhe_cases [of y] by auto
  finally show ?thesis .
next
  case False
  moreover have "\<lfloor>x\<rfloor> \<le> \<lfloor>y\<rfloor>" using assms by (rule floor_mono)
  ultimately have eq: "\<lfloor>x\<rfloor> = \<lfloor>y\<rfloor>" by simp
  then have "x - of_int \<lfloor>x\<rfloor> \<le> y - of_int \<lfloor>y\<rfloor>" using assms by simp
  then show ?thesis
    unfolding round_half_even_def Let_def eq by auto
qed


section \<open>Properties of the rounding to significant digits\<close>

lemma round_sig_0: "round_sig b p 0 = 0"
  by (simp add: round_sig_def)

lemma round_sig_pos:
  assumes "0 < x"
  shows "round_sig b p x =
           of_int (round_half_even (x / of_int b powi (ilog b x - (p - 1))))
             * of_int b powi (ilog b x - (p - 1))"
  using assms by (simp add: round_sig_def Let_def)

lemma round_sig_minus: "round_sig b p (- x) = - round_sig b p x"
  by (simp add: round_sig_def Let_def)

lemma powi_of_int_nat:
  assumes "0 \<le> k"
  shows "(of_int b :: rat) powi k = of_int (b ^ nat k)"
  using assms by (simp add: power_int_nonneg_exp)

lemma mantissa_bounds:
  assumes b: "2 \<le> b" and x: "0 < x"
  shows "of_int b powi (p - 1) \<le> x / of_int b powi (ilog b x - (p - 1))"
    and "x / of_int b powi (ilog b x - (p - 1)) < of_int b powi p"
proof -
  define B :: rat where "B = of_int b"
  define e where "e = ilog b x - (p - 1)"
  have B0: "B \<noteq> 0" "0 < B" using b by (simp_all add: B_def)
  have Be: "0 < B powi e" using B0 by simp
  have 1: "B powi (p - 1) * B powi e = B powi ilog b x"
    using B0 by (simp add: e_def flip: power_int_add)
  have 2: "B powi p * B powi e = B powi (ilog b x + 1)"
    using B0 by (simp add: e_def flip: power_int_add)
  note L = ilog_bounds [OF b x, folded B_def]
  have "B powi (p - 1) \<le> x / B powi e"
    using L 1 Be by (simp add: pos_le_divide_eq)
  then show "of_int b powi (p - 1) \<le> x / of_int b powi (ilog b x - (p - 1))"
    by (simp add: B_def e_def)
  have "x / B powi e < B powi p"
    using L 2 Be by (simp add: pos_divide_less_eq)
  then show "x / of_int b powi (ilog b x - (p - 1)) < of_int b powi p"
    by (simp add: B_def e_def)
qed

lemma coefficient_bounds:
  assumes b: "2 \<le> b" and p: "1 \<le> p" and x: "0 < x"
  shows "b ^ nat (p - 1) \<le> round_half_even (x / of_int b powi (ilog b x - (p - 1)))"
    and "round_half_even (x / of_int b powi (ilog b x - (p - 1))) \<le> b ^ nat p"
proof -
  note M = mantissa_bounds [OF b x, of p]
  show "b ^ nat (p - 1) \<le> round_half_even (x / of_int b powi (ilog b x - (p - 1)))"
    using M(1) p by (intro rhe_ge_int) (simp add: powi_of_int_nat)
  show "round_half_even (x / of_int b powi (ilog b x - (p - 1))) \<le> b ^ nat p"
    using M(2) p by (intro rhe_le_int) (simp add: powi_of_int_nat less_imp_le)
qed

lemma round_sig_nonneg:
  assumes b: "2 \<le> b" and x: "0 \<le> x"
  shows "0 \<le> round_sig b p x"
proof (cases "x = 0")
  case True
  then show ?thesis by (simp add: round_sig_0)
next
  case False
  with x have xp: "0 < x" by simp
  have "0 < (of_int b :: rat)" using b by simp
  then have "0 < (of_int b :: rat) powi (ilog b x - (p - 1))" by simp
  moreover from this xp have "of_int 0 \<le> x / of_int b powi (ilog b x - (p - 1))" by simp
  then have "0 \<le> round_half_even (x / of_int b powi (ilog b x - (p - 1)))"
    by (rule rhe_ge_int)
  ultimately show ?thesis
    unfolding round_sig_pos [OF xp] by simp
qed

lemma round_sig_nonpos:
  assumes b: "2 \<le> b" and x: "x \<le> 0"
  shows "round_sig b p x \<le> 0"
  using round_sig_nonneg [OF b, of "- x" p] x by (simp add: round_sig_minus)

lemma round_sig_exact_pos:
  assumes b: "2 \<le> b" and p: "1 \<le> p" and c: "0 < c" "c < b ^ nat p"
  shows "round_sig b p (of_int c * of_int b powi j) = of_int c * of_int b powi j"
proof -
  define B :: rat where "B = of_int b"
  define x where "x = of_int c * B powi j"
  have B1: "1 < B" and B0: "B \<noteq> 0" "0 < B" using b by (simp_all add: B_def)
  have xp: "0 < x" using c B0 by (simp add: x_def)
  define e where "e = ilog b x - (p - 1)"
  have "of_int c < B powi p"
    using c(2) p unfolding B_def by (simp add: powi_of_int_nat)
  then have "x < B powi p * B powi j"
    using B0 by (simp add: x_def)
  then have "x < B powi (p + j)" using B0 by (simp add: power_int_add)
  moreover have "B powi ilog b x \<le> x" using ilog_bounds [OF b xp] by (simp add: B_def)
  ultimately have "B powi ilog b x < B powi (p + j)" by linarith
  then have "ilog b x < p + j"
    using B1 by (metis not_le power_int_increasing less_imp_le not_less)
  then have ej: "0 \<le> j - e" by (simp add: e_def)
  have "x / B powi e = of_int c * B powi (j - e)"
    using B0 by (simp add: x_def power_int_diff)
  also have "\<dots> = of_int (c * b ^ nat (j - e))"
    using ej by (simp add: B_def powi_of_int_nat)
  finally have m: "x / B powi e = of_int (c * b ^ nat (j - e))" .
  have "round_sig b p x = of_int (round_half_even (x / B powi e)) * B powi e"
    using round_sig_pos [OF xp] by (simp add: B_def e_def)
  also have "\<dots> = x / B powi e * B powi e"
    by (simp only: m rhe_of_int)
  also have "\<dots> = x" using B0 by simp
  finally show ?thesis by (simp add: x_def B_def)
qed

lemma round_sig_exact:
  assumes b: "2 \<le> b" and p: "1 \<le> p" and c: "\<bar>c\<bar> < b ^ nat p"
  shows "round_sig b p (of_int c * of_int b powi j) = of_int c * of_int b powi j"
proof -
  consider "c = 0" | "0 < c" | "c < 0" by linarith
  then show ?thesis
  proof cases
    case 1
    then show ?thesis by (simp add: round_sig_0)
  next
    case 2
    with c show ?thesis by (intro round_sig_exact_pos [OF b p]) simp_all
  next
    case 3
    with c have "round_sig b p (of_int (- c) * of_int b powi j) = of_int (- c) * of_int b powi j"
      by (intro round_sig_exact_pos [OF b p]) simp_all
    then show ?thesis using round_sig_minus [of b p "of_int c * of_int b powi j"] by simp
  qed
qed

lemma round_sig_of_int:
  assumes b: "2 \<le> b" and p: "1 \<le> p" and c: "\<bar>c\<bar> < b ^ nat p"
  shows "round_sig b p (of_int c) = of_int c"
  using round_sig_exact [OF assms, of 0] by simp

lemma round_sig_mono_pos:
  assumes b: "2 \<le> b" and p: "1 \<le> p" and x: "0 < x" and xy: "x \<le> y"
  shows "round_sig b p x \<le> round_sig b p y"
proof -
  define B :: rat where "B = of_int b"
  have B1: "1 < B" and B0: "B \<noteq> 0" "0 < B" using b by (simp_all add: B_def)
  have y: "0 < y" using x xy by simp
  define ex where "ex = ilog b x - (p - 1)"
  define ey where "ey = ilog b y - (p - 1)"
  define cx where "cx = round_half_even (x / B powi ex)"
  define cy where "cy = round_half_even (y / B powi ey)"
  have Rx: "round_sig b p x = of_int cx * B powi ex"
    using round_sig_pos [OF x] by (simp add: B_def ex_def cx_def)
  have Ry: "round_sig b p y = of_int cy * B powi ey"
    using round_sig_pos [OF y] by (simp add: B_def ey_def cy_def)
  have le: "ex \<le> ey" using ilog_mono [OF b x xy] by (simp add: ex_def ey_def)
  show ?thesis
  proof (cases "ex = ey")
    case True
    have "x / B powi ey \<le> y / B powi ey" using xy B0 by (simp add: divide_right_mono)
    then have "cx \<le> cy" unfolding cx_def cy_def True by (rule rhe_mono)
    then show ?thesis using B0 by (simp add: Rx Ry True)
  next
    case False
    with le have lt: "ex + 1 \<le> ey" by simp
    have "cx \<le> b ^ nat p"
      using coefficient_bounds(2) [OF b p x] by (simp add: cx_def ex_def B_def)
    then have "(of_int cx :: rat) \<le> B powi p"
      using p unfolding B_def by (simp add: powi_of_int_nat flip: of_int_power)
    then have "of_int cx * B powi ex \<le> B powi p * B powi ex"
      using B0 by (simp add: mult_right_mono)
    also have "\<dots> = B powi (p + ex)" using B0 by (simp add: power_int_add)
    also have "\<dots> \<le> B powi (p - 1 + ey)"
      using B1 lt by (intro power_int_increasing) simp_all
    also have "\<dots> = B powi (p - 1) * B powi ey" using B0 by (simp add: power_int_add)
    also have "\<dots> \<le> of_int cy * B powi ey"
    proof -
      have "b ^ nat (p - 1) \<le> cy"
        using coefficient_bounds(1) [OF b p y] by (simp add: cy_def ey_def B_def)
      then have "B powi (p - 1) \<le> of_int cy"
        using p unfolding B_def by (simp add: powi_of_int_nat flip: of_int_power)
      then show ?thesis using B0 by (simp add: mult_right_mono)
    qed
    finally show ?thesis by (simp add: Rx Ry)
  qed
qed

lemma round_sig_mono:
  assumes b: "2 \<le> b" and p: "1 \<le> p" and xy: "x \<le> y"
  shows "round_sig b p x \<le> round_sig b p y"
proof -
  consider "0 < x" | "x \<le> 0" "0 \<le> y" | "y < 0" using xy by linarith
  then show ?thesis
  proof cases
    case 1
    then show ?thesis using xy by (rule round_sig_mono_pos [OF b p])
  next
    case 2
    have "round_sig b p x \<le> 0" using b 2(1) by (rule round_sig_nonpos)
    also have "0 \<le> round_sig b p y" using b 2(2) by (rule round_sig_nonneg)
    finally show ?thesis .
  next
    case 3
    then have "0 < - y" "- y \<le> - x" using xy by simp_all
    then have "round_sig b p (- y) \<le> round_sig b p (- x)" by (rule round_sig_mono_pos [OF b p])
    then show ?thesis by (simp add: round_sig_minus)
  qed
qed

lemma round_sig_form_pos:
  assumes b: "2 \<le> b" and p: "1 \<le> p" and x: "0 < x"
  shows "\<exists>c j. 0 < c \<and> c < b ^ nat p \<and> round_sig b p x = of_int c * of_int b powi j"
proof -
  define B :: rat where "B = of_int b"
  have B0: "B \<noteq> 0" "0 < B" using b by (simp_all add: B_def)
  define e where "e = ilog b x - (p - 1)"
  define c where "c = round_half_even (x / B powi e)"
  have R: "round_sig b p x = of_int c * B powi e"
    using round_sig_pos [OF x] by (simp add: B_def e_def c_def)
  have lo: "b ^ nat (p - 1) \<le> c" and hi: "c \<le> b ^ nat p"
    using coefficient_bounds [OF b p x] by (simp_all add: c_def e_def B_def)
  have bp: "0 < b ^ nat (p - 1)" using b by simp
  show ?thesis
  proof (cases "c = b ^ nat p")
    case False
    with hi lo bp have "0 < c \<and> c < b ^ nat p" by simp
    with R show ?thesis unfolding B_def by blast
  next
    case True
    have "(of_int c :: rat) = B powi p"
      using p unfolding True B_def by (simp add: powi_of_int_nat)
    then have "round_sig b p x = of_int 1 * B powi (p + e)"
      using R B0 by (simp add: power_int_add)
    moreover have "(1::int) < b ^ nat p"
      using b p by (intro one_less_power) simp_all
    ultimately have "0 < (1::int) \<and> (1::int) < b ^ nat p
        \<and> round_sig b p x = of_int 1 * of_int b powi (p + e)"
      by (simp add: B_def)
    then show ?thesis by blast
  qed
qed

lemma round_sig_idem:
  assumes b: "2 \<le> b" and p: "1 \<le> p"
  shows "round_sig b p (round_sig b p x) = round_sig b p x"
proof -
  have pos: "round_sig b p (round_sig b p y) = round_sig b p y" if y: "0 < y" for y
  proof -
    obtain c j where "0 < c" "c < b ^ nat p" "round_sig b p y = of_int c * of_int b powi j"
      using round_sig_form_pos [OF b p y] by blast
    then show ?thesis using round_sig_exact_pos [OF b p, of c j] by simp
  qed
  consider "x = 0" | "0 < x" | "x < 0" by linarith
  then show ?thesis
  proof cases
    case 1
    then show ?thesis by (simp add: round_sig_0)
  next
    case 2
    then show ?thesis by (rule pos)
  next
    case 3
    then have "round_sig b p (round_sig b p (- x)) = round_sig b p (- x)" by (intro pos) simp
    then show ?thesis by (simp add: round_sig_minus)
  qed
qed




section \<open>Ranks\<close>

lemma tied_positions_none:
  "x \<notin> set ys \<Longrightarrow> tied_positions x ys k = []"
  by (induction ys arbitrary: k) auto

lemma tied_positions_sorted:
  "sorted s \<Longrightarrow>
     tied_positions x s k =
       map (\<lambda>i. k + int (length (filter (\<lambda>y. y < x) s)) + int i)
           [0..<length (filter (\<lambda>y. y = x) s)]"
proof (induction s arbitrary: k)
  case Nil
  show ?case by simp
next
  case (Cons y ys)
  then have srt: "sorted ys" and ge: "\<forall>z\<in>set ys. y \<le> z" by simp_all
  note IH = Cons.IH [OF srt]
  consider "y < x" | "y = x" | "x < y" by linarith
  then show ?case
  proof cases
    case 1
    then show ?thesis using IH [of "k + 1"] by simp
  next
    case 2
    with ge have "filter (\<lambda>z. z < x) ys = []" by (auto simp: filter_empty_conv)
    then show ?thesis
      using 2 IH [of "k + 1"]
      by (simp add: upt_rec [of 0 "Suc _"] map_Suc_upt [symmetric] del: upt_Suc)
  next
    case 3
    with ge have "x \<notin> set ys" "filter (\<lambda>z. z < x) ys = []" "filter (\<lambda>z. z = x) ys = []"
      by (auto simp: filter_empty_conv)
    then show ?thesis using 3 by (simp add: tied_positions_none)
  qed
qed

lemma sum_list_arith:
  "sum_list (map (\<lambda>i. a + int i) [0..<n]) = int n * a + int n * (int n - 1) div 2"
proof (induction n)
  case 0
  show ?case by simp
next
  case (Suc n)
  have "even (int n * (int n - 1))" by simp
  then obtain t where t: "int n * (int n - 1) = 2 * t" by (elim evenE)
  have "(1 + int n) * int n = 2 * (t + int n)" using t by (simp add: algebra_simps)
  then show ?case using Suc t by (simp add: algebra_simps)
qed

lemma rank_of_sorted:
  assumes "sorted s" "x \<in> set s"
  shows "rank_of x s = average_rank x s"
proof -
  define L where "L = length (filter (\<lambda>y. y < x) s)"
  define E where "E = length (filter (\<lambda>y. y = x) s)"
  have E: "0 < E" using assms(2) by (auto simp: E_def filter_empty_conv)
  have tp: "tied_positions x s 1 = map (\<lambda>i. (1 + int L) + int i) [0..<E]"
    using tied_positions_sorted [OF assms(1), of x 1] by (simp add: L_def E_def)
  have "even (int E * (int E - 1))" by simp
  then obtain t where t: "int E * (int E - 1) = 2 * t" by (elim evenE)
  have s: "sum_list (tied_positions x s 1) = int E * (1 + int L) + t"
    unfolding tp sum_list_arith t by simp
  have t': "(of_int t :: rat) = of_nat E * (of_nat E - 1) / 2"
  proof -
    have "(of_int (2 * t) :: rat) = of_int (int E * (int E - 1))" using t by simp
    then show ?thesis by simp
  qed
  have len: "length (tied_positions x s 1) = E" by (simp add: tp)
  have "rank_of x s = (of_nat E * (1 + of_nat L) + of_int t) / of_nat E"
    by (simp add: rank_of_def Let_def s len)
  also have "\<dots> = of_nat L + (of_nat E + 1) / 2"
    using E unfolding t' by (simp add: field_simps)
  finally show ?thesis by (simp add: average_rank_def L_def E_def)
qed

lemma rank_of_sort:
  assumes "x \<in> set values"
  shows "rank_of x (sort values) = average_rank x values"
proof -
  have "rank_of x (sort values) = average_rank x (sort values)"
    using assms by (intro rank_of_sorted) simp_all
  also have "\<dots> = average_rank x values"
    by (simp add: average_rank_def filter_sort)
  finally show ?thesis .
qed


section \<open>Challenge scores\<close>

lemma float_round_0: "float_round 0 = 0"
  by (simp add: float_round_def round_sig_0)

lemma float_round_of_int:
  assumes "\<bar>k\<bar> < 2 ^ 53"
  shows "float_round (of_int k) = of_int k"
  unfolding float_round_def using assms
  by (intro round_sig_of_int) simp_all

lemma float_round_1: "float_round 1 = 1"
  using float_round_of_int [of 1] by simp

lemma float_round_mono: "x \<le> y \<Longrightarrow> float_round x \<le> float_round y"
  unfolding float_round_def by (intro round_sig_mono) simp_all

lemma float_round_nonneg: "0 \<le> x \<Longrightarrow> 0 \<le> float_round x"
  unfolding float_round_def by (intro round_sig_nonneg) simp_all

lemma float_round_le_1: "x \<le> 1 \<Longrightarrow> float_round x \<le> 1"
  using float_round_mono [of x 1] by (simp add: float_round_1)

lemma float_round_idem: "float_round (float_round x) = float_round x"
  unfolding float_round_def by (intro round_sig_idem) simp_all

lemma mem_unmasked: "x \<in> set (unmasked data) \<longleftrightarrow> Fin x \<in> set data"
  by (induction data) (auto simp: unmasked_def split: pyfloat.splits)

lemma length_unmasked_le: "int (length (unmasked data)) \<le> count_nonnan data"
  by (induction data) (auto simp: unmasked_def count_nonnan_def split: pyfloat.splits)

lemma filter_lt_eq_le:
  "length (filter (\<lambda>y. y < x) vs) + length (filter (\<lambda>y. y = (x::rat)) vs) \<le> length vs"
  by (induction vs) auto

lemma average_rank_bounds:
  assumes "x \<in> set vs"
  shows "1 \<le> average_rank x vs" "average_rank x vs \<le> of_nat (length vs)"
proof -
  define L where "L = length (filter (\<lambda>y. y < x) vs)"
  define E where "E = length (filter (\<lambda>y. y = x) vs)"
  have E: "1 \<le> E"
    using assms by (auto simp: E_def filter_empty_conv Suc_le_eq)
  have LE: "L + E \<le> length vs" unfolding L_def E_def by (rule filter_lt_eq_le)
  have a: "average_rank x vs = of_nat L + (of_nat E + 1) / 2"
    by (simp add: average_rank_def L_def E_def)
  have E': "(1::rat) \<le> of_nat E" using E by simp
  have L': "(0::rat) \<le> of_nat L" by simp
  have h1: "1 \<le> (of_nat E + 1) / (2::rat)" using E' by simp
  have h2: "(of_nat E + 1) / 2 \<le> (of_nat E :: rat)" using E' by simp
  show "1 \<le> average_rank x vs" unfolding a using h1 L' by linarith
  have "(of_nat L :: rat) + of_nat E \<le> of_nat (length vs)"
    using LE by (metis of_nat_add of_nat_le_iff)
  then show "average_rank x vs \<le> of_nat (length vs)" unfolding a using h2 by linarith
qed

lemma ranks_char:
  "map zero_to_nan (rankdata data) =
     map (\<lambda>d. case d of Fin x \<Rightarrow> Fin (average_rank x (unmasked data)) | _ \<Rightarrow> NaN) data"
proof -
  have "zero_to_nan (case d of Fin x \<Rightarrow> Fin (rank_of x (sort (unmasked data))) | _ \<Rightarrow> Fin 0)
        = (case d of Fin x \<Rightarrow> Fin (average_rank x (unmasked data)) | _ \<Rightarrow> NaN)"
    if "d \<in> set data" for d
  proof (cases d)
    case (Fin x)
    with that have m: "x \<in> set (unmasked data)" by (simp add: mem_unmasked)
    then have "rank_of x (sort (unmasked data)) = average_rank x (unmasked data)"
      by (rule rank_of_sort)
    moreover have "average_rank x (unmasked data) \<noteq> 0"
      using average_rank_bounds(1) [OF m] by linarith
    ultimately show ?thesis by (simp add: Fin zero_to_nan_def)
  qed (simp_all add: zero_to_nan_def)
  then show ?thesis by (simp add: rankdata_def Let_def)
qed

lemma challenge_scores_char:
  "Scorer1_compute_challenge_scores participants_errors =
     (if count_nonnan participants_errors = 0 then []
      else map (challenge_score (count_nonnan participants_errors) (unmasked participants_errors))
               participants_errors)"
proof -
  have "float_div (float_sub (float_of_int n) (case d of Fin x \<Rightarrow> Fin (average_rank x vs) | _ \<Rightarrow> NaN))
                  (float_of_int (n - 1)) = challenge_score n vs d" for n vs d
    by (cases d) (simp_all add: challenge_score_def float_sub_def float_of_int_def)
  then show ?thesis
    by (simp add: Scorer1_compute_challenge_scores_def Let_def ranks_char)
qed



lemma count_nonnan_le_length: "count_nonnan es \<le> int (length es)"
  by (simp add: count_nonnan_def)

lemma challenge_score_range:
  assumes len: "length es < 2 ^ 53" and e: "e \<in> set es"
  shows "challenge_score (count_nonnan es) (unmasked es) e = NaN
       \<or> (\<exists>v. challenge_score (count_nonnan es) (unmasked es) e = Fin v \<and> 0 \<le> v \<and> v \<le> 1)"
proof (cases e)
  case (Fin x)
  define n where "n = count_nonnan es"
  define r where "r = average_rank x (unmasked es)"
  from Fin e have m: "x \<in> set (unmasked es)" by (simp add: mem_unmasked)
  have n1: "1 \<le> n"
  proof -
    have "0 < length (unmasked es)" using m by (cases "unmasked es") auto
    then have "1 \<le> int (length (unmasked es))" by linarith
    then show ?thesis using length_unmasked_le [of es] unfolding n_def by linarith
  qed
  have nb: "n < 2 ^ 53"
    using count_nonnan_le_length [of es] len by (simp add: n_def)
  have r1: "1 \<le> r" and rn: "r \<le> of_int n"
  proof -
    show "1 \<le> r" unfolding r_def using m by (rule average_rank_bounds)
    have "r \<le> of_nat (length (unmasked es))" unfolding r_def using m by (rule average_rank_bounds)
    also have "\<dots> \<le> of_int n"
      using length_unmasked_le [of es] unfolding n_def
      by (metis of_int_le_iff of_int_of_nat_eq)
    finally show "r \<le> of_int n" .
  qed
  have Rn: "float_round (of_int n) = of_int n"
    using n1 nb by (intro float_round_of_int) simp
  have Rn1: "float_round (of_int n - 1) = of_int n - 1"
    using n1 nb float_round_of_int [of "n - 1"] by simp
  define a where "a = float_round (of_int n - r)"
  have a0: "0 \<le> a" unfolding a_def using rn by (intro float_round_nonneg) simp
  have "a \<le> float_round (of_int n - 1)"
    unfolding a_def using r1 by (intro float_round_mono) simp
  then have a1: "a \<le> of_int n - 1" by (simp only: Rn1)
  have s1: "float_of_int n = Fin (of_int n)" by (simp add: float_of_int_def Rn)
  have s2: "float_of_int (n - 1) = Fin (of_int n - 1)" by (simp add: float_of_int_def Rn1)
  have s3: "float_sub (Fin (of_int n)) (Fin r) = Fin a" by (simp add: float_sub_def a_def)
  have "challenge_score n (unmasked es) e
          = float_div (float_sub (float_of_int n) (Fin r)) (float_of_int (n - 1))"
    by (simp add: Fin challenge_score_def r_def)
  then have cs: "challenge_score n (unmasked es) e = float_div (Fin a) (Fin (of_int n - 1))"
    by (simp only: s1 s2 s3)
  show ?thesis
  proof (cases "n = 1")
    case True
    with a0 a1 have "a = 0" by simp
    then show ?thesis using True cs by (simp add: n_def)
  next
    case False
    with n1 have d: "(0::rat) < of_int n - 1" by simp
    have "0 \<le> a / (of_int n - 1)" "a / (of_int n - 1) \<le> 1"
      using a0 a1 d by simp_all
    then have "0 \<le> float_round (a / (of_int n - 1))" "float_round (a / (of_int n - 1)) \<le> 1"
      by (simp_all add: float_round_nonneg float_round_le_1)
    then show ?thesis using cs d by (simp add: n_def)
  qed
qed (simp_all add: challenge_score_def)

text \<open>
  Claim C3 at the errors \<open>1.0, 2.0, inf\<close>. The count \<open>n\<close> is taken with \<open>isnan\<close> and is 3,
  while \<open>masked_invalid\<close> also masks the infinite error, so only two errors are ranked: the
  participant with the infinite error, whose error is defined, gets \<open>nan\<close>, and the worst
  ranked participant gets \<open>(3 - 2) / (3 - 1) = 0.5\<close> instead of 0.
\<close>

theorem challenge_scores_infinite_error:
  "Scorer1_compute_challenge_scores [Fin 1, Fin 2, PInf] = [Fin 1, Fin (1 / 2), NaN]"
  by code_simp


section \<open>The competition score\<close>

lemma count_skips:
  "foldl (\<lambda>k score. if isnan score then k + 1 else k) a xs
     = a + int (length (filter isnan xs))"
  by (induction xs arbitrary: a) simp_all

lemma float_add_zero:
  assumes "\<forall>v. acc = Fin v \<longrightarrow> float_round v = v"
  shows "float_add acc (Fin 0) = acc"
  using assms by (cases acc) simp_all

lemma float_add_rounded:
  "\<forall>v. float_add a b = Fin v \<longrightarrow> float_round v = v"
  by (cases a; cases b) (auto simp: float_round_idem)

lemma foldl_skip_zeros:
  assumes "\<forall>x. \<not> P x \<longrightarrow> g x = Fin 0"
    and "\<forall>v. acc = Fin v \<longrightarrow> float_round v = v"
  shows "foldl float_add acc (map g xs) = foldl float_add acc (map g (filter P xs))"
  using assms(2)
proof (induction xs arbitrary: acc)
  case Nil
  show ?case by simp
next
  case (Cons x xs)
  show ?case
  proof (cases "P x")
    case True
    then show ?thesis using Cons.IH [OF float_add_rounded] by simp
  next
    case False
    then have "g x = Fin 0" using assms(1) by simp
    then show ?thesis
      using False Cons.IH [OF Cons.prems] float_add_zero [OF Cons.prems] by simp
  qed
qed

lemma float_sum_skip_zeros:
  assumes "\<forall>x. \<not> P x \<longrightarrow> g x = Fin 0"
  shows "float_sum (map g xs) = float_sum (map g (filter P xs))"
  unfolding float_sum_def
  by (rule foldl_skip_zeros [OF assms]) (simp add: float_round_0)

lemma float_sum_replace_nan:
  "float_sum (replace_nan xs) = float_sum (filter (\<lambda>s. \<not> isnan s) xs)"
proof -
  have "float_sum (map (\<lambda>x. if isnan x then Fin 0 else x) xs)
          = float_sum (map (\<lambda>x. if isnan x then Fin 0 else x) (filter (\<lambda>s. \<not> isnan s) xs))"
    by (rule float_sum_skip_zeros) simp
  also have "map (\<lambda>x. if isnan x then Fin 0 else x) (filter (\<lambda>s. \<not> isnan s) xs)
          = filter (\<lambda>s. \<not> isnan s) xs"
    by (induction xs) simp_all
  finally show ?thesis by (simp add: replace_nan_def)
qed

lemma nanmean_spec: "nanmean xs = spec_mean (filter (\<lambda>s. \<not> isnan s) xs)"
  by (simp add: nanmean_def spec_mean_def float_sum_replace_nan count_nonnan_def)

lemma nanvar_spec:
  "nanvar xs =
     (let present = filter (\<lambda>s. \<not> isnan s) xs; m = spec_mean present
      in float_div (float_sum (map (\<lambda>x. float_mul (float_sub x m) (float_sub x m)) present))
                   (float_of_int (int (length present))))"
proof -
  define m where "m = spec_mean (filter (\<lambda>s. \<not> isnan s) xs)"
  define g where "g = (\<lambda>x. float_mul (if isnan x then Fin 0 else float_sub x m)
                                      (if isnan x then Fin 0 else float_sub x m))"
  have avg: "float_div (float_sum (replace_nan xs)) (float_of_int (count_nonnan xs)) = m"
    using nanmean_spec [of xs] by (simp add: nanmean_def m_def)
  have "nanvar xs = float_div (float_sum (map g xs)) (float_of_int (count_nonnan xs))"
    by (simp add: nanvar_def Let_def avg g_def comp_def cong: if_cong)
  also have "float_sum (map g xs) = float_sum (map g (filter (\<lambda>s. \<not> isnan s) xs))"
    by (rule float_sum_skip_zeros) (simp add: g_def float_round_0)
  also have "map g (filter (\<lambda>s. \<not> isnan s) xs)
      = map (\<lambda>x. float_mul (float_sub x m) (float_sub x m)) (filter (\<lambda>s. \<not> isnan s) xs)"
    by (induction xs) (simp_all add: g_def)
  finally show ?thesis by (simp add: Let_def m_def count_nonnan_def)
qed

lemma nanstd_spec: "nanstd xs = spec_population_stddev (filter (\<lambda>s. \<not> isnan s) xs)"
  by (simp add: nanstd_def nanvar_spec spec_population_stddev_def Let_def)


lemma competition_score_eq_spec:
  "Scorer1_compute_competition_score challenge_scores = spec_competition_score challenge_scores"
  by (simp add: Scorer1_compute_competition_score_def spec_competition_score_def Let_def
      count_skips nanmean_spec nanstd_spec)

text \<open>
  Claim C5. The competition score computed by the code is the formula of the
  specification: over the last four entries, with the skips counted as the missing slots
  plus the \<open>nan\<close> entries, it is \<open>nan\<close> when there are four skips, and otherwise the mean of
  the entries that are not \<open>nan\<close>, less \<open>0.1 * 2\<close> times their population standard
  deviation and \<open>0.1 * num_skips / 3\<close>, floored at 0 by \<open>max\<close>.
\<close>

theorem competition_score_formula:
  "Scorer1_compute_competition_score challenge_scores = spec_competition_score challenge_scores"
  by (rule competition_score_eq_spec)


section \<open>Score ranges\<close>

lemma isqrt_nonneg: "0 \<le> isqrt n"
proof (induction n rule: isqrt.induct)
  case (1 n)
  show ?case
  proof (cases "n < 4")
    case True
    then show ?thesis by (subst isqrt.simps) simp
  next
    case False
    then show ?thesis using 1 [OF False] by (subst isqrt.simps) (simp add: Let_def)
  qed
qed

lemma sqrt_round_nonneg: "0 \<le> sqrt_round x"
proof (cases "x \<le> 0")
  case True
  then show ?thesis by (simp add: sqrt_round_def)
next
  case False
  define k where "k = (109 - ilog 2 x) div 2"
  define s where "s = isqrt \<lfloor>x * 4 powi k\<rfloor>"
  have s0: "0 \<le> s" unfolding s_def by (rule isqrt_nonneg)
  then have "0 \<le> of_int s / (2::rat) powi k" by simp
  then have A: "0 \<le> float_round (of_int s / 2 powi k)" by (rule float_round_nonneg)
  have "0 \<le> (of_int s + 1 / 2) / (2::rat) powi k" using s0 by simp
  then have B: "0 \<le> float_round ((of_int s + 1 / 2) / 2 powi k)" by (rule float_round_nonneg)
  show ?thesis using False A B by (simp add: sqrt_round_def Let_def k_def s_def)
qed

lemma foldl_float_add_unit:
  assumes "\<forall>x\<in>set xs. \<exists>v. x = Fin v \<and> 0 \<le> v \<and> v \<le> 1"
    and "0 \<le> acc" "acc \<le> of_int J" "0 \<le> J" "J + int (length xs) < 2 ^ 53"
  shows "\<exists>S. foldl float_add (Fin acc) xs = Fin S \<and> 0 \<le> S \<and> S \<le> of_int (J + int (length xs))"
  using assms
proof (induction xs arbitrary: acc J)
  case Nil
  then show ?case by simp
next
  case (Cons x xs)
  then obtain v where v: "x = Fin v" "0 \<le> v" "v \<le> 1" by auto
  define acc' where "acc' = float_round (acc + v)"
  have 0: "0 \<le> acc'" unfolding acc'_def using Cons.prems(2) v(2) by (intro float_round_nonneg) simp
  have "acc' \<le> float_round (of_int (J + 1))"
    unfolding acc'_def using Cons.prems(3) v(3) by (intro float_round_mono) simp
  also have "\<dots> = of_int (J + 1)"
    using Cons.prems(4,5) by (intro float_round_of_int) simp
  finally have 1: "acc' \<le> of_int (J + 1)" .
  have "\<exists>S. foldl float_add (Fin acc') xs = Fin S \<and> 0 \<le> S \<and> S \<le> of_int (J + 1 + int (length xs))"
    using Cons.prems(1,4,5) by (intro Cons.IH [OF _ 0 1]) simp_all
  then obtain S where S: "foldl float_add (Fin acc') xs = Fin S" "0 \<le> S"
      "S \<le> of_int (J + 1 + int (length xs))" by blast
  have "J + 1 + int (length xs) = J + int (length (x # xs))" by simp
  with S(3) have "S \<le> of_int (J + int (length (x # xs)))" by (simp only:)
  moreover have "foldl float_add (Fin acc) (x # xs) = Fin S"
    using S(1) by (simp add: v(1) acc'_def)
  ultimately show ?case using S(2) by blast
qed

lemma foldl_float_add_nonneg:
  assumes "\<forall>x\<in>set xs. \<exists>v. x = Fin v \<and> 0 \<le> v" and "0 \<le> acc"
  shows "\<exists>S. foldl float_add (Fin acc) xs = Fin S \<and> 0 \<le> S"
  using assms
proof (induction xs arbitrary: acc)
  case Nil
  then show ?case by simp
next
  case (Cons x xs)
  then obtain v where v: "x = Fin v" "0 \<le> v" by auto
  have "0 \<le> float_round (acc + v)" using Cons.prems(2) v(2) by (intro float_round_nonneg) simp
  then show ?case using Cons.IH [of "float_round (acc + v)"] Cons.prems(1) by (simp add: v(1))
qed

lemma spec_mean_unit:
  assumes u: "\<forall>x\<in>set xs. \<exists>v. x = Fin v \<and> 0 \<le> v \<and> v \<le> 1"
    and ne: "xs \<noteq> []" and len: "length xs < 2 ^ 53"
  shows "\<exists>m. spec_mean xs = Fin m \<and> 0 \<le> m \<and> m \<le> 1"
proof -
  define k where "k = int (length xs)"
  have k: "1 \<le> k" "k < 2 ^ 53"
    using ne len by (simp_all add: k_def Suc_le_eq)
  obtain S where S: "float_sum xs = Fin S" "0 \<le> S" "S \<le> of_int k"
    using foldl_float_add_unit [OF u, of 0 0] len by (auto simp: float_sum_def k_def)
  have Rk: "float_round (of_int k) = of_int k" using k by (intro float_round_of_int) simp
  have kp: "(0::rat) < of_int k" using k by simp
  have "0 \<le> S / of_int k" "S / of_int k \<le> 1" using S kp by simp_all
  then have "0 \<le> float_round (S / of_int k)" "float_round (S / of_int k) \<le> 1"
    by (simp_all add: float_round_nonneg float_round_le_1)
  moreover have "spec_mean xs = Fin (float_round (S / of_int k))"
    using kp by (simp add: spec_mean_def S(1) float_of_int_def Rk flip: k_def)
  ultimately show ?thesis by blast
qed

lemma spec_population_stddev_nonneg:
  assumes u: "\<forall>x\<in>set xs. \<exists>v. x = Fin v \<and> 0 \<le> v \<and> v \<le> 1"
    and ne: "xs \<noteq> []" and len: "length xs < 2 ^ 53"
  shows "\<exists>s. spec_population_stddev xs = Fin s \<and> 0 \<le> s"
proof -
  define k where "k = int (length xs)"
  have k: "1 \<le> k" "k < 2 ^ 53"
    using ne len by (simp_all add: k_def Suc_le_eq)
  obtain m where m: "spec_mean xs = Fin m" using spec_mean_unit [OF assms] by blast
  define sq where "sq = map (\<lambda>x. float_mul (float_sub x (Fin m)) (float_sub x (Fin m))) xs"
  have "\<forall>y\<in>set sq. \<exists>v. y = Fin v \<and> 0 \<le> v"
  proof
    fix y assume "y \<in> set sq"
    then obtain x where x: "x \<in> set xs" "y = float_mul (float_sub x (Fin m)) (float_sub x (Fin m))"
      by (auto simp: sq_def)
    from u x(1) obtain v where "x = Fin v" by blast
    then have "y = Fin (float_round (float_round (v - m) * float_round (v - m)))"
      by (simp add: x(2) float_sub_def)
    moreover have "0 \<le> float_round (float_round (v - m) * float_round (v - m))"
      by (intro float_round_nonneg) simp
    ultimately show "\<exists>v. y = Fin v \<and> 0 \<le> v" by blast
  qed
  then obtain S where S: "float_sum sq = Fin S" "0 \<le> S"
    using foldl_float_add_nonneg [of sq 0] by (auto simp: float_sum_def)
  have Rk: "float_round (of_int k) = of_int k" using k by (intro float_round_of_int) simp
  have kp: "(0::rat) < of_int k" using k by simp
  have V: "0 \<le> float_round (S / of_int k)" using S(2) kp by (intro float_round_nonneg) simp
  have "spec_population_stddev xs = float_sqrt (Fin (float_round (S / of_int k)))"
    using kp S(1)
    by (simp add: spec_population_stddev_def Let_def m float_of_int_def Rk flip: k_def sq_def)
  also have "\<dots> = Fin (sqrt_round (float_round (S / of_int k)))" using V by simp
  finally show ?thesis using sqrt_round_nonneg by blast
qed

lemma length_filter_eq_iff: "length (filter P xs) = length xs \<longleftrightarrow> (\<forall>x\<in>set xs. P x)"
proof (induction xs)
  case Nil
  show ?case by simp
next
  case (Cons x xs)
  have le: "length (filter P xs) \<le> length xs" by (rule length_filter_le)
  show ?case
  proof (cases "P x")
    case True
    then show ?thesis using Cons by simp
  next
    case False
    have "length (filter P xs) \<noteq> Suc (length xs)" using le by linarith
    then show ?thesis using False by simp
  qed
qed

lemma isnan_iff: "isnan s \<longleftrightarrow> s = NaN"
  by (cases s) simp_all

lemma py_max0_range:
  assumes "v \<le> 1"
  shows "\<exists>w. py_max0 (Fin v) = Fin w \<and> 0 \<le> w \<and> w \<le> 1"
  using assms by (simp add: py_max0_def)

lemma competition_score_range:
  assumes u: "\<forall>s\<in>set h. s = NaN \<or> (\<exists>v. s = Fin v \<and> 0 \<le> v \<and> v \<le> 1)"
  shows "(Scorer1_compute_competition_score h = NaN
            \<longleftrightarrow> (\<forall>s\<in>set (drop (length h - 4) h). s = NaN))
       \<and> (Scorer1_compute_competition_score h = NaN
            \<or> (\<exists>v. Scorer1_compute_competition_score h = Fin v \<and> 0 \<le> v \<and> v \<le> 1))"
proof -
  define w where "w = drop (length h - 4) h"
  define p where "p = filter (\<lambda>s. \<not> isnan s) w"
  define skips where "skips = (4 - int (length w)) + int (length (filter isnan w))"
  have lw: "length w \<le> 4" by (simp add: w_def)
  have sk0: "0 \<le> skips" using lw by (simp add: skips_def)
  have sk4: "skips = 4 \<longleftrightarrow> (\<forall>s\<in>set w. s = NaN)"
  proof -
    have "skips = 4 \<longleftrightarrow> length (filter isnan w) = length w" by (auto simp: skips_def)
    then show ?thesis by (simp add: length_filter_eq_iff isnan_iff)
  qed
  have formula: "Scorer1_compute_competition_score h =
      (if skips = 4 then NaN
       else py_max0 (float_sub (spec_mean p)
              (float_add (float_mul (float_mul STDDEV_PENALTY (float_of_int 2))
                                    (spec_population_stddev p))
                         (float_div (float_mul SKIP_PENALTY (float_of_int skips))
                                    (float_of_int 3)))))"
    unfolding competition_score_eq_spec spec_competition_score_def Let_def w_def p_def skips_def
    by (rule refl)
  show ?thesis
  proof (cases "skips = 4")
    case True
    then show ?thesis using formula sk4 by (simp add: w_def)
  next
    case False
    then obtain s0 where "s0 \<in> set w" "s0 \<noteq> NaN" using sk4 by blast
    then have "s0 \<in> set p" by (simp add: p_def isnan_iff)
    then have pne: "p \<noteq> []" by auto
    have "set w \<subseteq> set h" unfolding w_def by (rule set_drop_subset)
    then have pu: "\<forall>x\<in>set p. \<exists>v. x = Fin v \<and> 0 \<le> v \<and> v \<le> 1"
      using u by (fastforce simp: p_def isnan_iff)
    have "length p \<le> 4" using lw length_filter_le [of _ w] unfolding p_def by (rule order_trans [rotated])
    then have plen: "length p < 2 ^ 53" by simp
    obtain m where m: "spec_mean p = Fin m" "0 \<le> m" "m \<le> 1"
      using spec_mean_unit [OF pu pne plen] by blast
    obtain sd where sd: "spec_population_stddev p = Fin sd" "0 \<le> sd"
      using spec_population_stddev_nonneg [OF pu pne plen] by blast
    define c1 where "c1 = float_round (1 / 10)"
    have c1: "0 \<le> c1" unfolding c1_def by (intro float_round_nonneg) simp
    have R2: "0 \<le> float_round 2" by (intro float_round_nonneg) simp
    have R3: "float_round 3 = 3" using float_round_of_int [of 3] by simp
    define b where "b = float_round (float_round (c1 * float_round 2) * sd)"
    have "0 \<le> c1 * float_round 2" using c1 R2 by (rule mult_nonneg_nonneg)
    then have "0 \<le> float_round (c1 * float_round 2)" by (rule float_round_nonneg)
    then have "0 \<le> float_round (c1 * float_round 2) * sd" using sd(2) by (rule mult_nonneg_nonneg)
    then have b0: "0 \<le> b" unfolding b_def by (rule float_round_nonneg)
    have bb: "float_mul (float_mul STDDEV_PENALTY (float_of_int 2)) (spec_population_stddev p) = Fin b"
      by (simp add: STDDEV_PENALTY_def float_of_int_def sd(1) b_def c1_def)
    define c where "c = float_round (float_round (c1 * float_round (of_int skips)) / 3)"
    have "0 \<le> float_round (of_int skips)" using sk0 by (intro float_round_nonneg) simp
    with c1 have "0 \<le> c1 * float_round (of_int skips)" by (rule mult_nonneg_nonneg)
    then have "0 \<le> float_round (c1 * float_round (of_int skips))" by (rule float_round_nonneg)
    then have "0 \<le> float_round (c1 * float_round (of_int skips)) / 3" by simp
    then have c0: "0 \<le> c" unfolding c_def by (rule float_round_nonneg)
    have cc: "float_div (float_mul SKIP_PENALTY (float_of_int skips)) (float_of_int 3) = Fin c"
      by (simp add: SKIP_PENALTY_def float_of_int_def R3 c_def c1_def)
    define t where "t = float_round (b + c)"
    have t0: "0 \<le> t" unfolding t_def using b0 c0 by (intro float_round_nonneg) simp
    define r where "r = float_round (m - t)"
    have "r \<le> 1" unfolding r_def using m(3) t0 by (intro float_round_le_1) simp
    then obtain v where v: "py_max0 (Fin r) = Fin v" "0 \<le> v" "v \<le> 1"
      using py_max0_range by blast
    have "Scorer1_compute_competition_score h = py_max0 (Fin r)"
      using False by (simp add: formula m(1) bb cc float_sub_def t_def r_def)
    then have "Scorer1_compute_competition_score h = Fin v" using v(1) by simp
    then show ?thesis using v(2,3) False sk4 by (simp add: w_def)
  qed
qed

text \<open>
  Claim C6, as the code has it. Every challenge score that is not \<open>nan\<close> lies in
  \<open>[0, 1]\<close> (for a list of fewer than \<open>2^53\<close> errors, whose count is a float). For a history
  whose entries are \<open>nan\<close> or lie in \<open>[0, 1]\<close>, the competition score is \<open>nan\<close> exactly when
  the four slots of the window are all skips, and lies in \<open>[0, 1]\<close> otherwise.
\<close>

theorem score_ranges:
  "(length participants_errors < 2 ^ 53 \<longrightarrow>
      (\<forall>s\<in>set (Scorer1_compute_challenge_scores participants_errors).
          s = NaN \<or> (\<exists>v. s = Fin v \<and> 0 \<le> v \<and> v \<le> 1)))
   \<and> ((\<forall>s\<in>set challenge_scores. s = NaN \<or> (\<exists>v. s = Fin v \<and> 0 \<le> v \<and> v \<le> 1)) \<longrightarrow>
        (Scorer1_compute_competition_score challenge_scores = NaN
            \<longleftrightarrow> (\<forall>s\<in>set (drop (length challenge_scores - 4) challenge_scores). s = NaN))
      \<and> (Scorer1_compute_competition_score challenge_scores = NaN
            \<or> (\<exists>v. Scorer1_compute_competition_score challenge_scores = Fin v
                    \<and> 0 \<le> v \<and> v \<le> 1)))"
proof (intro conjI impI ballI)
  fix s
  assume len: "length participants_errors < 2 ^ 53"
    and s: "s \<in> set (Scorer1_compute_challenge_scores participants_errors)"
  then obtain e where "e \<in> set participants_errors"
    "s = challenge_score (count_nonnan participants_errors) (unmasked participants_errors) e"
    by (auto simp: challenge_scores_char split: if_splits)
  then show "s = NaN \<or> (\<exists>v. s = Fin v \<and> 0 \<le> v \<and> v \<le> 1)"
    using challenge_score_range [OF len] by simp
next
  assume "\<forall>s\<in>set challenge_scores. s = NaN \<or> (\<exists>v. s = Fin v \<and> 0 \<le> v \<and> v \<le> 1)"
  then show "Scorer1_compute_competition_score challenge_scores = NaN
            \<longleftrightarrow> (\<forall>s\<in>set (drop (length challenge_scores - 4) challenge_scores). s = NaN)"
    using competition_score_range by blast
next
  assume "\<forall>s\<in>set challenge_scores. s = NaN \<or> (\<exists>v. s = Fin v \<and> 0 \<le> v \<and> v \<le> 1)"
  then show "Scorer1_compute_competition_score challenge_scores = NaN
            \<or> (\<exists>v. Scorer1_compute_competition_score challenge_scores = Fin v
                    \<and> 0 \<le> v \<and> v \<le> 1)"
    using competition_score_range by blast
qed


text \<open>
  Claim C6 on a history with one score and four skips after it, on the history
  \<open>1.0, 0.0\<close>, and on the errors \<open>1.0, 2.0, 3.0\<close>.
\<close>

theorem score_ranges_witness:
  "Scorer1_compute_competition_score [Fin 1, NaN, NaN, NaN, NaN] = NaN
   \<and> (\<exists>v. Scorer1_compute_competition_score [Fin 1, Fin 0] = Fin v \<and> 0 \<le> v \<and> v \<le> 1)
   \<and> (\<exists>v. Fin v \<in> set (Scorer1_compute_challenge_scores [Fin 1, Fin 2, Fin 3])
            \<and> 0 \<le> v \<and> v \<le> 1)"
proof -
  have h1: "\<forall>s\<in>set [Fin 1, NaN, NaN, NaN, NaN]. s = NaN \<or> (\<exists>v. s = Fin v \<and> 0 \<le> v \<and> v \<le> 1)"
    by simp
  have h2: "\<forall>s\<in>set [Fin 1, Fin 0]. s = NaN \<or> (\<exists>v. s = Fin v \<and> 0 \<le> v \<and> v \<le> 1)"
    by simp
  have h3: "length [Fin 1, Fin 2, Fin 3] < 2 ^ 53" by simp
  have a: "Scorer1_compute_competition_score [Fin 1, NaN, NaN, NaN, NaN] = NaN"
    using score_ranges [of "[]" "[Fin 1, NaN, NaN, NaN, NaN]"] h1 by simp
  have "Scorer1_compute_competition_score [Fin 1, Fin 0] \<noteq> NaN"
    using score_ranges [of "[]" "[Fin 1, Fin 0]"] h2 by simp
  then have b: "\<exists>v. Scorer1_compute_competition_score [Fin 1, Fin 0] = Fin v \<and> 0 \<le> v \<and> v \<le> 1"
    using score_ranges [of "[]" "[Fin 1, Fin 0]"] h2 by blast
  have sc: "Scorer1_compute_challenge_scores [Fin 1, Fin 2, Fin 3] = [Fin 1, Fin (1 / 2), Fin 0]"
    by code_simp
  have B: "\<forall>s\<in>set (Scorer1_compute_challenge_scores [Fin 1, Fin 2, Fin 3]).
             s = NaN \<or> (\<exists>v. s = Fin v \<and> 0 \<le> v \<and> v \<le> 1)"
    using score_ranges [of "[Fin 1, Fin 2, Fin 3]" "[]"] h3 by blast
  have mem: "Fin (1 / 2) \<in> set (Scorer1_compute_challenge_scores [Fin 1, Fin 2, Fin 3])"
    by (simp add: sc)
  have c: "\<exists>v. Fin v \<in> set (Scorer1_compute_challenge_scores [Fin 1, Fin 2, Fin 3])
            \<and> 0 \<le> v \<and> v \<le> 1"
    using B mem by blast
  show ?thesis using a b c by blast
qed

text \<open>
  Claim C6 as stated fails: the competition score of an empty history is \<open>nan\<close>, which is
  no number of \<open>[0, 1]\<close>, and the competition score of a history that holds the single
  entry \<open>5.0\<close> is about \<open>4.9\<close>.
\<close>

theorem competition_score_counterexample:
  "Scorer1_compute_competition_score [] = NaN
   \<and> Scorer1_compute_competition_score [Fin 5] = Fin (2758454771764429 / 562949953421312)"
  by code_simp


section \<open>The divisions by zero\<close>

lemma round_sig_pos_pos:
  assumes b: "2 \<le> b" and p: "1 \<le> p" and x: "0 < x"
  shows "0 < round_sig b p x"
proof -
  have "0 < b ^ nat (p - 1)" using b by simp
  then have "0 < round_half_even (x / of_int b powi (ilog b x - (p - 1)))"
    using coefficient_bounds(1) [OF b p x] by linarith
  moreover have "0 < (of_int b :: rat) powi (ilog b x - (p - 1))" using b by simp
  ultimately show ?thesis unfolding round_sig_pos [OF x] by simp
qed





lemma ctx_round_mono: "x \<le> y \<Longrightarrow> ctx_round x \<le> ctx_round y"
  unfolding ctx_round_def by (intro round_sig_mono) (simp_all add: prec_def)












section \<open>The factors of the competition rewards\<close>

lemma map_result_Inr:
  assumes "\<forall>x\<in>set xs. f x = Inr (h x)"
  shows "map_result f xs = Inr (map h xs)"
  using assms by (induction xs) simp_all

lemma map_result_length:
  "map_result f xs = Inr ys \<Longrightarrow> length ys = length xs"
  by (induction xs arbitrary: ys) (auto split: sum.splits)

lemma float_round_pos: "0 < x \<Longrightarrow> 0 < float_round x"
  unfolding float_round_def by (intro round_sig_pos_pos) simp_all

lemma ctx_round_nonpos: "x \<le> 0 \<Longrightarrow> ctx_round x \<le> 0"
  unfolding ctx_round_def by (intro round_sig_nonpos) simp_all

lemma competition_factor_Fin:
  "competition_factor (Fin v) = Inr (max (ctx_round (v - 5 / 10)) 0)"
  by (simp add: py_max_def dec_sub_def max_def)

lemma competition_factor_zero: "competition_factor (Fin 0) = Inr 0"
proof -
  have "ctx_round (0 - 5 / 10) \<le> 0" by (intro ctx_round_nonpos) simp
  then show ?thesis by (simp add: py_max_def dec_sub_def)
qed

lemma ctx_round_minus_half: "max (ctx_round (- (1 / 2))) 0 = 0"
proof -
  have "ctx_round (- (1 / 2)) \<le> 0" by (intro ctx_round_nonpos) simp
  then show ?thesis by simp
qed

lemma map_result_map:
  assumes "\<forall>d\<in>set xs. f (g d) = Inr (h d)"
  shows "map_result f (map g xs) = Inr (map h xs)"
  using assms by (induction xs) simp_all

lemma normalized_rank_char:
  assumes n: "2 \<le> n"
  shows "(let r = (case d of Fin x \<Rightarrow> Fin (average_rank x ranked) | _ \<Rightarrow> NaN)
          in if \<not> isnan r
             then float_div (float_sub r (float_of_int 1)) (float_of_int (n - 1))
             else Fin 0)
         = (case d of Fin x \<Rightarrow> Fin (spec_normalized_rank n ranked x) | _ \<Rightarrow> Fin 0)"
proof (cases d)
  case (Fin x)
  have "(0::rat) < of_int (n - 1)" using n by simp
  then have "0 < float_round (of_int (n - 1))" by (rule float_round_pos)
  then have d: "float_round (of_int (n - 1)) \<noteq> 0" by simp
  have "float_div (float_sub (Fin (average_rank x ranked)) (float_of_int 1)) (float_of_int (n - 1))
          = Fin (spec_normalized_rank n ranked x)"
    using d by (simp add: float_sub_def float_of_int_def float_round_1 spec_normalized_rank_def)
  then show ?thesis using Fin by simp
qed simp_all

lemma normalized_ranks_char:
  assumes n: "2 \<le> count_nonnan scores"
  shows "normalized_ranks scores =
           map (\<lambda>d. case d of
                       Fin x \<Rightarrow> Fin (spec_normalized_rank (count_nonnan scores) (unmasked scores) x)
                     | _ \<Rightarrow> Fin 0) scores"
  using normalized_rank_char [OF n, where ranked = "unmasked scores"]
  by (simp add: normalized_ranks_def Let_def ranks_char comp_def)

lemma competition_factors_char:
  assumes n: "2 \<le> count_nonnan scores"
  shows "competition_factors scores =
           Inr (map (spec_competition_factor (count_nonnan scores) (unmasked scores)) scores)"
proof -
  have "competition_factor
          (case d of Fin x \<Rightarrow> Fin (spec_normalized_rank m ranked x) | _ \<Rightarrow> Fin 0)
        = Inr (spec_competition_factor m ranked d)" for d m ranked
    by (cases d)
       (simp_all add: spec_competition_factor_def competition_factor_Fin ctx_round_minus_half
          del: competition_factor.simps)
  then show ?thesis
    unfolding competition_factors_def normalized_ranks_char [OF n]
    by (intro map_result_map) simp
qed

lemma unmasked_length:
  assumes "\<forall>s\<in>set scores. s \<noteq> PInf \<and> s \<noteq> NInf"
  shows "int (length (unmasked scores)) = count_nonnan scores"
  using assms by (induction scores) (auto simp: unmasked_def count_nonnan_def split: pyfloat.splits)

lemma spec_competition_factor_nonneg: "0 \<le> spec_competition_factor n ranked d"
  by (cases d) (simp_all add: spec_competition_factor_def)

text \<open>
  Claim C7, as the code has it. With at least two competition scores that are not \<open>nan\<close>
  and none infinite, \<open>n\<close> is the number of ranked scores, and the factor of a participant
  is \<open>max(normalized_rank - 0.5, 0)\<close> with the difference rounded to the 28 significant
  digits of the decimal context, where the normalized rank is the float quotient
  \<open>(rank - 1) / (n - 1)\<close> of the tie-averaged rank; a participant whose score is \<open>nan\<close> has
  the factor 0; no factor is negative; the rewards are the distribution of these factors
  over the competition pool.
\<close>

theorem competition_reward_factors:
  assumes "2 \<le> count_nonnan competition_scores"
    and "\<forall>s\<in>set competition_scores. s \<noteq> PInf \<and> s \<noteq> NInf"
  shows "int (length (unmasked competition_scores)) = count_nonnan competition_scores
       \<and> competition_factors competition_scores
           = Inr (map (spec_competition_factor (count_nonnan competition_scores)
                                               (unmasked competition_scores))
                      competition_scores)
       \<and> spec_competition_factor (count_nonnan competition_scores)
                                  (unmasked competition_scores) NaN = 0
       \<and> (\<forall>s\<in>set competition_scores.
             0 \<le> spec_competition_factor (count_nonnan competition_scores)
                                           (unmasked competition_scores) s)
       \<and> Scorer1_compute_competition_rewards competition_scores competition_pool
           = distribute (map (spec_competition_factor (count_nonnan competition_scores)
                                                      (unmasked competition_scores))
                             competition_scores)
                        competition_pool"
proof -
  have "count_nonnan competition_scores \<noteq> 0" using assms(1) by simp
  moreover have "spec_competition_factor n ranked NaN = 0" for n ranked
    by (simp add: spec_competition_factor_def)
  ultimately show ?thesis
    using unmasked_length [OF assms(2)] competition_factors_char [OF assms(1)]
    by (simp add: spec_competition_factor_nonneg Scorer1_compute_competition_rewards_def)
qed


text \<open>Claim C7 on the scores \<open>0.0, nan, 0.5, 1.0\<close> and a pool of 12000.\<close>

theorem competition_reward_factors_witness:
  "competition_factors [Fin 0, NaN, Fin (1 / 2), Fin 1] = Inr [0, 0, 0, 1 / 2]
   \<and> Scorer1_compute_competition_rewards [Fin 0, NaN, Fin (1 / 2), Fin 1] 12000
       = distribute [0, 0, 0, 1 / 2] 12000"
proof -
  have h1: "2 \<le> count_nonnan [Fin 0, NaN, Fin (1 / 2), Fin 1]" by code_simp
  have h2: "\<forall>s\<in>set [Fin 0, NaN, Fin (1 / 2), Fin 1]. s \<noteq> PInf \<and> s \<noteq> NInf" by simp
  have f: "map (spec_competition_factor (count_nonnan [Fin 0, NaN, Fin (1 / 2), Fin 1])
                                        (unmasked [Fin 0, NaN, Fin (1 / 2), Fin 1]))
               [Fin 0, NaN, Fin (1 / 2), Fin 1] = [0, 0, 0, 1 / 2]"
    by code_simp
  show ?thesis
    using competition_reward_factors [OF h1 h2, of 12000] unfolding f by simp
qed


text \<open>
  Claim C7 as stated fails. With four distinct scores the third participant has rank 3
  and the normalized rank \<open>0.6666666666666666\<close>, the float nearest to \<open>2/3\<close>, whose exact
  value has 53 digits: the factor is that value less \<open>0.5\<close> rounded to 28 digits, neither
  \<open>2/3 - 1/2\<close> nor the float less \<open>1/2\<close>. With a single score that is not \<open>nan\<close> the
  normalized rank is \<open>0.0 / 0 = nan\<close>, and \<open>max\<close> raises InvalidOperation on its decimal.
\<close>

theorem competition_reward_factors_counterexample:
  "competition_factors [Fin (1 / 8), Fin (1 / 4), Fin (1 / 2), Fin (3 / 4)]
     = Inr [0, 0, 1666666666666666296592325125 / 10 ^ 28, 1 / 2]
   \<and> (1666666666666666296592325125 / 10 ^ 28 :: rat) \<noteq> max ((3 - 1) / (4 - 1) - 1 / 2) 0
   \<and> (1666666666666666296592325125 / 10 ^ 28 :: rat)
       \<noteq> max (float_round ((3 - 1) / (4 - 1)) - 1 / 2) 0
   \<and> Scorer1_compute_competition_rewards [Fin (1 / 2)] 12000 = Inl InvalidOperation"
  by code_simp


section \<open>The distribution of a pool\<close>















section \<open>Conservation of the pool\<close>

subsection \<open>Relative error of the decimal context\<close>

lemma unit_roundoff_val: "unit_roundoff = 5 / 10 ^ 28"
  by (simp add: unit_roundoff_def prec_def power_int_minus_divide)

lemma unit_roundoff_bounds: "0 \<le> unit_roundoff" "unit_roundoff \<le> 1 / 2"
  by (simp_all add: unit_roundoff_val)








subsection \<open>Rounded sums and quotients\<close>

lemma one_minus_u: "0 \<le> 1 - unit_roundoff" "1 - unit_roundoff \<le> 1" "0 < 1 - unit_roundoff"
  using unit_roundoff_bounds by simp_all







subsection \<open>The rewards that are returned\<close>

















end
